theory Spec2Isabelle
  imports Main "HOL-Library.Sublist" "HOL-Library.AList" "HOL-Library.Multiset"
begin

section \<open>Strings\<close>

text \<open>
  A JavaScript string is a sequence of code units; \<open>length\<close>, \<open>substring\<close> and
  \<open>startsWith\<close> count code units. The model uses \<^typ>\<open>string\<close>, one \<^typ>\<open>char\<close> per
  code unit, so it covers the code units below 256. On those, the regular expression
  class \<open>\s\<close> and \<open>String.prototype.trim\<close> agree on the whitespace set: tab, line feed,
  vertical tab, form feed, carriage return, space and the no-break space.
\<close>

definition is_ws :: "char \<Rightarrow> bool" where
  "is_ws c = (c \<in> {CHR 0x09, CHR 0x0A, CHR 0x0B, CHR 0x0C, CHR 0x0D, CHR '' '', CHR 0xA0})"

definition startsWith :: "string \<Rightarrow> string \<Rightarrow> bool" where
  "startsWith s p = (take (length p) s = p)"

text \<open>\<open>s.trim()\<close>: whitespace removed at both ends.\<close>

definition trim :: "string \<Rightarrow> string" where
  "trim s = rev (dropWhile is_ws (rev (dropWhile is_ws s)))"

text \<open>\<open>s.replace(/\s+/g, " ")\<close>: every maximal run of whitespace becomes one space.\<close>

function collapse_ws :: "string \<Rightarrow> string" where
  "collapse_ws [] = []"
| "collapse_ws (c # cs) =
     (if is_ws c then CHR '' '' # collapse_ws (dropWhile is_ws cs) else c # collapse_ws cs)"
  by pat_completeness auto
termination
  by (relation "measure length") (auto simp: length_dropWhile_le less_Suc_eq_le)

text \<open>\<open>s.split("\n")\<close> and \<open>lines.join("\n")\<close>.\<close>

fun split_nl :: "string \<Rightarrow> string list" where
  "split_nl [] = [[]]"
| "split_nl (c # cs) =
     (if c = CHR 0x0A then [] # split_nl cs
      else (case split_nl cs of
              [] \<Rightarrow> [[c]]
            | l # ls \<Rightarrow> (c # l) # ls))"

fun join_nl :: "string list \<Rightarrow> string" where
  "join_nl [] = []"
| "join_nl [l] = l"
| "join_nl (l # ls) = l @ CHR 0x0A # join_nl ls"

section \<open>DiffSimplifier\<close>

text \<open>
  The configuration, with the three fields the comment on \<open>configCache\<close> lists and
  \<open>simplify\<close> reads: \<open>enabled\<close>, \<open>contextLines\<close> and \<open>maxLineLength\<close>. Its value is a
  parameter of \<open>simplify\<close> here, where the source takes it from \<open>getConfig()\<close>. The two
  numbers are settings of the editor, so they are integers of either sign.
\<close>

record DiffConfig =
  enabled :: bool
  contextLines :: int
  maxLineLength :: int

text \<open>
  \<open>truncateLine\<close>: \<open>substring(0, n)\<close> takes a negative \<open>n\<close> as 0, which is what
  \<^term>\<open>nat\<close> does.
\<close>

definition truncateLine :: "string \<Rightarrow> int \<Rightarrow> string" where
  "truncateLine line maxLength =
     (if line = [] \<or> int (length line) \<le> maxLength then line
      else take (nat (maxLength - int (length ''...''))) line @ ''...'')"

definition compressLine :: "string \<Rightarrow> string" where
  "compressLine line =
     (if line = [] then line
      else
        let prefix = (if hd line \<in> {CHR ''+'', CHR '' '', CHR ''-''} then [hd line] else []);
            content = (if prefix \<noteq> [] then drop 1 line else line);
            indent = takeWhile is_ws content;
            content = drop (length indent) content;
            content = collapse_ws (trim content)
        in prefix
           @ (if length indent > 0 then replicate (min 2 (length indent)) CHR '' '' else [])
           @ content)"

definition isHeaderLine :: "string \<Rightarrow> bool" where
  "isHeaderLine line =
     (startsWith line ''Index:'' \<or> startsWith line ''==='' \<or>
      startsWith line ''---'' \<or> startsWith line ''+++'')"

definition isChangeLine :: "string \<Rightarrow> bool" where
  "isChangeLine line = (startsWith line ''+'' \<or> startsWith line ''-'')"

text \<open>
  One iteration of the loop of \<open>simplify\<close>, on the state of the loop: the lines pushed so
  far (\<open>simplified\<close>) and \<open>skipCount\<close>.
\<close>

definition simplifyStep :: "DiffConfig \<Rightarrow> string list \<times> nat \<Rightarrow> string \<Rightarrow> string list \<times> nat" where
  "simplifyStep config st l =
     (let simplified = fst st; skipCount = snd st; line = compressLine l in
      if isHeaderLine line then (simplified @ [line], skipCount)
      else if isChangeLine line then
        (simplified @ [truncateLine line (maxLineLength config)], 0)
      else if int skipCount < contextLines config then
        (simplified @ [truncateLine line (maxLineLength config)], skipCount + 1)
      else if int skipCount = contextLines config then
        (simplified @ [''...''], skipCount + 1)
      else (simplified, skipCount))"

definition simplifyLoop :: "DiffConfig \<Rightarrow> string list \<times> nat \<Rightarrow> string list \<Rightarrow> string list \<times> nat" where
  "simplifyLoop config st lines = foldl (simplifyStep config) st lines"

definition simplify :: "DiffConfig \<Rightarrow> string \<Rightarrow> string" where
  "simplify config diff =
     (if \<not> enabled config then diff
      else join_nl (fst (simplifyLoop config ([], 0) (split_nl diff))))"

section \<open>Messages and notifications\<close>

text \<open>
  \<open>LocalizationManager\<close> and \<open>NotificationHandler\<close> are collaborators outside the sources.
  A localized text is kept as the call that builds it: \<open>getMessage(key)\<close>,
  \<open>format(key, args)\<close>, or a string, a number or \<open>undefined\<close> the program already
  holds. A notification is an effect, collected in the order the program issues it.
\<close>

datatype message =
    Literal string
  | Number nat
  | UndefinedValue
  | GetMessage string
  | Format string "message list"

datatype notification = Warn message | ErrorNote message | Info message

section \<open>OpenAIProvider.generateResponse\<close>

text \<open>
  The model descriptor, the request parameters and the response, with the fields
  \<open>generateResponse\<close> reads and writes. A field the code reads with \<open>?.\<close> or \<open>||\<close> is
  optional.
\<close>

record TokenLimits =
  input_limit :: nat
  output_limit :: nat

record AIModel =
  model_id :: string
  maxTokens :: "TokenLimits option"

record AIRequestParams =
  diff :: string
  model :: "AIModel option"
  systemPrompt :: "string option"
  language :: "string option"
  allowMergeCommits :: "bool option"
  splitChangesInSingleFile :: "bool option"
  scm :: "string option"

record ChatRequest =
  req_model :: string
  req_system :: string
  req_user :: string

record Usage =
  prompt_tokens :: "nat option"
  completion_tokens :: "nat option"
  total_tokens :: "nat option"

text \<open>
  A completion of the vendor: the \<open>message.content\<close> of each choice (absent or a string)
  and the optional usage block. A failure of the vendor call is a thrown value whose
  \<open>message\<close> may be absent.
\<close>

record Completion =
  choices :: "string option list"
  usage :: "Usage option"

record ApiError =
  err_message :: "string option"

record ResponseUsage =
  promptTokens :: "nat option"
  completionTokens :: "nat option"
  totalTokens :: "nat option"

record AIResponse =
  content :: string
  response_usage :: ResponseUsage

text \<open>
  What the provider calls and does not define: the vendor's \<open>chat.completions.create\<close>
  (its answer may differ from call to call, so it is indexed by the number of calls made
  before), \<open>generateCommitMessageSystemPrompt\<close> and \<open>DEFAULT_CONFIG.language\<close>.
\<close>

record OpenAIEnv =
  create :: "nat \<Rightarrow> ChatRequest \<Rightarrow> ApiError + Completion"
  generateCommitMessageSystemPrompt :: "string \<Rightarrow> bool \<Rightarrow> bool \<Rightarrow> string \<Rightarrow> string"
  default_language :: string

text \<open>The outcome of a call: the value returned or the error thrown, the requests sent to
  the vendor in order, and the notifications shown.\<close>

record GenerateOutcome =
  outcome :: "message + AIResponse"
  requests :: "ChatRequest list"
  notifications :: "notification list"

text \<open>\<open>s.includes(p)\<close>.\<close>

fun str_includes :: "string \<Rightarrow> string \<Rightarrow> bool" where
  "str_includes [] p = (p = [])"
| "str_includes (c # cs) p = (startsWith (c # cs) p \<or> str_includes cs p)"

text \<open>\<open>a || b\<close> on an optional string: the empty string is falsy.\<close>

definition str_or :: "string option \<Rightarrow> string \<Rightarrow> string" where
  "str_or a b = (case a of None \<Rightarrow> b | Some s \<Rightarrow> if s = [] then b else s)"

definition bool_or_false :: "bool option \<Rightarrow> bool" where
  "bool_or_false a = (case a of None \<Rightarrow> False | Some b \<Rightarrow> b)"

text \<open>
  \<open>Math.floor(maxInputLength * 0.8)\<close>, computed on doubles as the source does. The
  budget is a whole number a double holds. The double \<open>0.8\<close> is
  \<open>3602879701896397 / 2^52\<close>, so the exact product is \<open>n * 3602879701896397 / 2^52\<close>; the
  multiplication gives the double nearest to it, that is the numerator rounded to 53
  significant bits, ties to even; the floor of a quotient by \<open>2^52\<close> is \<open>div\<close>.
\<close>

fun bit_length :: "nat \<Rightarrow> nat" where
  "bit_length n = (if n = 0 then 0 else Suc (bit_length (n div 2)))"

declare bit_length.simps [simp del]

definition round_double :: "nat \<Rightarrow> nat" where
  "round_double p =
     (let b = bit_length p in
      if b \<le> 53 then p
      else
        (let s = b - 53; q = p div 2 ^ s; r = p mod 2 ^ s in
         (if 2 * r > 2 ^ s \<or> (2 * r = 2 ^ s \<and> odd q) then q + 1 else q) * 2 ^ s))"

definition shrink :: "nat \<Rightarrow> nat" where
  "shrink maxInputLength = round_double (maxInputLength * 3602879701896397) div 2 ^ 52"

definition maxRetries :: nat where
  "maxRetries = 2"

text \<open>\<open>params.model?.maxTokens?.input || 16385\<close>: 0 is falsy.\<close>

definition initialInputLength :: "AIRequestParams \<Rightarrow> nat" where
  "initialInputLength params =
     (case model params of
        None \<Rightarrow> 16385
      | Some m \<Rightarrow>
          (case maxTokens m of
             None \<Rightarrow> 16385
           | Some t \<Rightarrow> if input_limit t = 0 then 16385 else input_limit t))"

definition buildRequest :: "OpenAIEnv \<Rightarrow> AIRequestParams \<Rightarrow> nat \<Rightarrow> ChatRequest" where
  "buildRequest env params maxInputLength =
     \<lparr>req_model =
        (case model params of
           None \<Rightarrow> ''gpt-3.5-turbo''
         | Some m \<Rightarrow> if model_id m = [] then ''gpt-3.5-turbo'' else model_id m),
      req_system =
        (case systemPrompt params of
           Some s \<Rightarrow>
             if s \<noteq> [] then s
             else generateCommitMessageSystemPrompt env
                    (str_or (language params) (default_language env))
                    (bool_or_false (allowMergeCommits params))
                    (bool_or_false (splitChangesInSingleFile params))
                    (str_or (scm params) ''git'')
         | None \<Rightarrow>
             generateCommitMessageSystemPrompt env
               (str_or (language params) (default_language env))
               (bool_or_false (allowMergeCommits params))
               (bool_or_false (splitChangesInSingleFile params))
               (str_or (scm params) ''git'')),
      req_user = take maxInputLength (diff params)\<rparr>"

definition toResponse :: "Completion \<Rightarrow> AIResponse" where
  "toResponse completion =
     \<lparr>content =
        (case choices completion of
           [] \<Rightarrow> []
         | c # _ \<Rightarrow> (case c of None \<Rightarrow> [] | Some s \<Rightarrow> s)),
      response_usage =
        (case usage completion of
           None \<Rightarrow> \<lparr>promptTokens = None, completionTokens = None, totalTokens = None\<rparr>
         | Some u \<Rightarrow>
             \<lparr>promptTokens = prompt_tokens u,
              completionTokens = completion_tokens u,
              totalTokens = total_tokens u\<rparr>)\<rparr>"

definition isContextLengthError :: "ApiError \<Rightarrow> bool" where
  "isContextLengthError error =
     (case err_message error of
        None \<Rightarrow> False
      | Some m \<Rightarrow> str_includes m ''maximum context length'')"

definition wrapError :: "ApiError \<Rightarrow> message" where
  "wrapError error =
     Format ''openai.generation.failed''
       [case err_message error of None \<Rightarrow> UndefinedValue | Some m \<Rightarrow> Literal m]"

text \<open>
  The \<open>while (true)\<close> loop, on its two variables. \<open>sent\<close> is the list of requests made
  so far; the loop makes one call per iteration, so its length is the index of the call.
\<close>

function generateLoop ::
  "OpenAIEnv \<Rightarrow> AIRequestParams \<Rightarrow> nat \<Rightarrow> nat \<Rightarrow> ChatRequest list \<Rightarrow> GenerateOutcome" where
  "generateLoop env params retries maxInputLength sent =
     (let request = buildRequest env params maxInputLength in
      case create env (length sent) request of
        Inr completion \<Rightarrow>
          \<lparr>outcome = Inr (toResponse completion),
           requests = sent @ [request],
           notifications =
             (if length (diff params) > maxInputLength
              then [Warn (GetMessage ''openai.input.truncated'')] else [])\<rparr>
      | Inl error \<Rightarrow>
          if retries < maxRetries \<and> isContextLengthError error
          then generateLoop env params (retries + 1) (shrink maxInputLength) (sent @ [request])
          else
            \<lparr>outcome = Inl (wrapError error),
             requests = sent @ [request],
             notifications = [ErrorNote (wrapError error)]\<rparr>)"
  by pat_completeness auto
termination
  by (relation "measure (\<lambda>(env, params, retries, maxInputLength, sent). maxRetries - retries)") auto

declare generateLoop.simps [simp del]

definition generateResponse :: "OpenAIEnv \<Rightarrow> AIRequestParams \<Rightarrow> GenerateOutcome" where
  "generateResponse env params = generateLoop env params 0 (initialInputLength params) []"

section \<open>SvnProvider.getDiff\<close>

text \<open>
  The promisified \<open>child_process.exec\<close> resolves to \<open>stdout\<close> and \<open>stderr\<close> when the
  process exits with code 0. It rejects when the process cannot be started, exits with
  another code, is killed or writes more than the buffer holds; the \<open>Error\<close> then has a
  message and carries what the process wrote to its two streams.
\<close>

record ExecError =
  exec_message :: string
  exec_stdout :: string
  exec_stderr :: string

text \<open>
  \<open>enableDiffSimplification\<close> is the setting \<open>getDiff\<close> reads; \<open>diffConfig\<close> is the
  configuration \<open>DiffSimplifier\<close> holds.
\<close>

record SvnEnv =
  exec :: "string \<Rightarrow> ExecError + string \<times> string"
  enableDiffSimplification :: "bool option"
  diffConfig :: DiffConfig

record DiffOutcome =
  diff_result :: "message + string"
  diff_notifications :: "notification list"

fun join_sp :: "string list \<Rightarrow> string" where
  "join_sp [] = []"
| "join_sp [l] = l"
| "join_sp (l # ls) = l @ CHR '' '' # join_sp ls"

definition diffCommand :: "string list option \<Rightarrow> string" where
  "diffCommand files =
     (case files of
        None \<Rightarrow> ''svn diff''
      | Some fs \<Rightarrow>
          if length fs > 0 then
            (let filesPaths = join_sp (map (\<lambda>f. [CHR 0x22] @ f @ [CHR 0x22]) fs) in
             if length filesPaths = 0 then ''svn diff'' else ''svn diff '' @ filesPaths)
          else ''svn diff'')"

text \<open>
  The \<open>catch\<close> block: the error is shown and thrown again. \<open>getDiff\<close> reads the two
  streams of a resolved \<open>exec\<close> only; an \<open>Error\<close> of \<open>exec\<close> goes to the \<open>catch\<close> block as
  it is.
\<close>

definition diffFailed :: "message \<Rightarrow> DiffOutcome" where
  "diffFailed m =
     \<lparr>diff_result = Inl m,
      diff_notifications = [ErrorNote (Format ''git.diff.failed'' [m])]\<rparr>"

definition getDiff :: "SvnEnv \<Rightarrow> string list option \<Rightarrow> DiffOutcome" where
  "getDiff env files =
     (case exec env (diffCommand files) of
        Inl e \<Rightarrow> diffFailed (Literal (exec_message e))
      | Inr (stdout, stderr) \<Rightarrow>
          if stderr \<noteq> [] then diffFailed (Literal stderr)
          else if trim stdout = [] then diffFailed (GetMessage ''diff.noChanges'')
          else if enableDiffSimplification env = Some True then
            \<lparr>diff_result = Inr (simplify (diffConfig env) stdout),
             diff_notifications = [Warn (GetMessage ''diff.simplification.warning'')]\<rparr>
          else \<lparr>diff_result = Inr stdout, diff_notifications = []\<rparr>)"

section \<open>ConfigurationManager\<close>

text \<open>
  A value of a setting is of any type \<open>'v\<close>; \<open>undefined\<close> is \<^term>\<open>None\<close>. The manager
  holds \<open>configuration\<close>, the handle it reads settings from, and \<open>configCache\<close>, a
  \<open>Map\<close> from key to value, which can hold \<open>undefined\<close> as a value.
\<close>

record 'v ConfigurationManager =
  configuration :: "string \<Rightarrow> 'v option"
  configCache :: "string \<rightharpoonup> 'v option"

definition getUpdatedValue :: "'v ConfigurationManager \<Rightarrow> string \<Rightarrow> 'v option" where
  "getUpdatedValue this key = configuration this key"

definition updateConfigCache :: "'v ConfigurationManager \<Rightarrow> string list \<Rightarrow> 'v ConfigurationManager" where
  "updateConfigCache this changedKeys =
     foldl (\<lambda>this key.
              case getUpdatedValue this key of
                None \<Rightarrow> this
              | Some v \<Rightarrow> this\<lparr>configCache := (configCache this)(key \<mapsto> Some v)\<rparr>)
       this changedKeys"

text \<open>
  The schema as \<open>traverse\<close> walks it: a leaf is a setting (\<open>isConfigValue\<close>), any other
  node a category with its entries in order. \<open>CONFIG_SCHEMA\<close> and \<open>EXTENSION_NAME\<close> are
  defined outside the sources and are parameters here. \<open>traverse\<close> is only ever called on
  a category.
\<close>

datatype ConfigObject = ConfigValue | Category "(string \<times> ConfigObject) list"

fun traverse :: "string \<Rightarrow> (string \<Rightarrow> bool) \<Rightarrow> ConfigObject \<Rightarrow> string \<Rightarrow> string list" where
  "traverse extension_name affectsConfiguration ConfigValue path = []"
| "traverse extension_name affectsConfiguration (Category entries) path =
     concat (map (\<lambda>entry.
        let newPath = (if path \<noteq> [] then path @ ''.'' @ fst entry else fst entry) in
        case snd entry of
          ConfigValue \<Rightarrow>
            if affectsConfiguration (extension_name @ ''.'' @ newPath) then [newPath] else []
        | Category sub \<Rightarrow>
            traverse extension_name affectsConfiguration (Category sub) newPath) entries)"

definition getChangedConfigurationKeys ::
  "string \<Rightarrow> ConfigObject \<Rightarrow> (string \<Rightarrow> bool) \<Rightarrow> string list" where
  "getChangedConfigurationKeys extension_name config_schema affectsConfiguration =
     traverse extension_name affectsConfiguration config_schema []"

text \<open>
  \<open>handleConfigurationChange\<close> assigns neither the handle nor the cache; what it does is
  ask \<open>AIProviderFactory\<close>, which is outside the sources, to reinitialize providers,
  returned here as their names.
\<close>

definition handleConfigurationChange :: "string list \<Rightarrow> string list" where
  "handleConfigurationChange changedKeys =
     (if ''providers'' \<in> set (map (takeWhile (\<lambda>c. c \<noteq> CHR ''.'')) changedKeys) then
        (if \<exists>key \<in> set changedKeys. startsWith key ''providers.openai'' then [''OpenAI''] else [])
        @ (if \<exists>key \<in> set changedKeys. startsWith key ''providers.ollama'' then [''Ollama''] else [])
        @ (if \<exists>key \<in> set changedKeys. startsWith key ''providers.zhipuai'' then [''ZhipuAI''] else [])
        @ (if \<exists>key \<in> set changedKeys. startsWith key ''providers.dashscope'' then [''DashScope''] else [])
        @ (if \<exists>key \<in> set changedKeys. startsWith key ''providers.doubao'' then [''Doubao''] else [])
      else [])"

text \<open>
  The listener of \<open>onDidChangeConfiguration\<close>. The event gives \<open>affectsConfiguration\<close>;
  \<open>fresh\<close> is the handle that \<open>vscode.workspace.getConfiguration\<close> returns when the listener
  asks for it, after the cache was updated through the handle held so far.
\<close>

definition onDidChangeConfiguration ::
  "string \<Rightarrow> ConfigObject \<Rightarrow> 'v ConfigurationManager \<Rightarrow> (string \<Rightarrow> bool) \<Rightarrow> (string \<Rightarrow> 'v option)
     \<Rightarrow> 'v ConfigurationManager \<times> string list" where
  "onDidChangeConfiguration extension_name config_schema this affectsConfiguration fresh =
     (let changedKeys = getChangedConfigurationKeys extension_name config_schema affectsConfiguration in
      if length changedKeys > 0 then
        (let this = updateConfigCache this changedKeys;
             this = this\<lparr>configuration := fresh\<rparr>
         in (this, handleConfigurationChange changedKeys))
      else (this, []))"

text \<open>\<open>s.replace(p, r)\<close> with a string pattern: the first occurrence only.\<close>

fun replace_first :: "string \<Rightarrow> string \<Rightarrow> string \<Rightarrow> string" where
  "replace_first p r [] = (if p = [] then r else [])"
| "replace_first p r (c # cs) =
     (if startsWith (c # cs) p then r @ drop (length p) (c # cs)
      else c # replace_first p r cs)"

text \<open>
  \<open>getConfig\<close> returns the value and leaves the manager with its cache filled. The table
  \<open>ConfigKeys\<close> from key names to setting names is declared outside the sources and is a
  parameter.
\<close>

definition getConfig ::
  "('k \<Rightarrow> string) \<Rightarrow> 'v ConfigurationManager \<Rightarrow> 'k \<Rightarrow> bool \<Rightarrow> 'v option \<times> 'v ConfigurationManager" where
  "getConfig ConfigKeys this key useCache =
     (let configKey = replace_first ''dish-ai-commit.'' [] (ConfigKeys key) in
      if \<not> useCache then (configuration this configKey, this)
      else
        (let this =
               (case configCache this configKey of
                  None \<Rightarrow>
                    this\<lparr>configCache := (configCache this)(configKey \<mapsto> configuration this configKey)\<rparr>
                | Some _ \<Rightarrow> this)
         in (case configCache this configKey of
               None \<Rightarrow> (None, this)
             | Some value \<Rightarrow> (value, this))))"

section \<open>ReviewCodeCommand\<close>

text \<open>\<open>escapeHtml\<close>: five global replacements of one character, one after the other.\<close>

definition replace_all :: "char \<Rightarrow> string \<Rightarrow> string \<Rightarrow> string" where
  "replace_all c r s = concat (map (\<lambda>x. if x = c then r else [x]) s)"

definition escapeHtml :: "string \<Rightarrow> string" where
  "escapeHtml unsafe =
     replace_all (CHR 0x27) ''&#039;''
       (replace_all (CHR 0x22) ''&quot;''
         (replace_all CHR ''>'' ''&gt;''
           (replace_all CHR ''<'' ''&lt;''
             (replace_all CHR ''&'' ''&amp;'' unsafe))))"

text \<open>
  \<open>getWebviewContent\<close>. \<open>path.basename\<close> and the localized title come from outside and
  are parameters; \<open>fileReviews\<close> is the \<open>Map\<close>, as its entries in insertion order.
\<close>

definition reviewSection :: "(string \<Rightarrow> string) \<Rightarrow> string \<times> string \<Rightarrow> string" where
  "reviewSection basename entry =
     ''\<newline>        <div class='' @ [CHR 0x22] @ ''review-section'' @ [CHR 0x22]
     @ ''>\<newline>          <h3 class='' @ [CHR 0x22] @ ''file-name'' @ [CHR 0x22] @ ''>''
     @ escapeHtml (basename (fst entry))
     @ ''</h3>\<newline>          <div class='' @ [CHR 0x22] @ ''review-content'' @ [CHR 0x22] @ ''>''
     @ escapeHtml (snd entry)
     @ ''</div>\<newline>        </div>\<newline>      ''"

definition getWebviewContent :: "(string \<Rightarrow> string) \<Rightarrow> string \<Rightarrow> (string \<times> string) list \<Rightarrow> string" where
  "getWebviewContent basename title fileReviews =
     (let reviewHtml = join_nl (map (reviewSection basename) fileReviews) in
      ''<!DOCTYPE html>\<newline>    <html>\<newline>      <head>\<newline>        <meta charset=''
      @ [CHR 0x22] @ ''UTF-8'' @ [CHR 0x22]
      @ ''>\<newline>        <meta name='' @ [CHR 0x22] @ ''viewport'' @ [CHR 0x22]
      @ '' content='' @ [CHR 0x22] @ ''width=device-width, initial-scale=1.0'' @ [CHR 0x22]
      @ ''>\<newline>        <title>''
      @ title
      @ ''</title>\<newline>        <style>\<newline>          body { padding: 20px; }\<newline>          .review-section { margin-bottom: 30px; }\<newline>          .file-name { \<newline>            margin-bottom: 10px;\<newline>            padding-bottom: 5px;\<newline>            border-bottom: 1px solid var(--vscode-textSeparator-foreground);\<newline>          }\<newline>          .review-content { \<newline>            white-space: pre-wrap;\<newline>            font-family: var(--vscode-editor-font-family);\<newline>          }\<newline>        </style>\<newline>      </head>\<newline>      <body>''
      @ reviewHtml
      @ ''</body>\<newline>    </html>'')"

text \<open>
  \<open>execute\<close>. What the command calls and does not define is a parameter: whether
  \<open>handleConfiguration\<close> and \<open>detectSCMProvider\<close> give a result, whether
  \<open>getModelAndUpdateConfiguration\<close> throws, the path of a resource, the diff call for a
  resource (it throws, or returns a string or \<open>undefined\<close>), the review call, which may
  be missing on the provider (for a file and its diff it throws, or gives a content or
  none) and \<open>path.basename\<close>. The calls of a \<open>Promise.all\<close> round are started in the
  order of the list and finish in an order the program does not fix: \<open>diffOrder\<close> and
  \<open>reviewOrder\<close> give, for the calls started, the order in which they finish.
\<close>

record ('r, 'e) ReviewEnv =
  handleConfiguration :: bool
  detectSCMProvider :: bool
  getModelAndUpdateConfiguration :: "'e option"
  fsPath :: "'r \<Rightarrow> string"
  scmGetDiff :: "'r \<Rightarrow> 'e + string option"
  generateCodeReview :: "(string \<times> string \<Rightarrow> 'e + string option) option"
  path_basename :: "string \<Rightarrow> string"
  diffOrder :: "'r list \<Rightarrow> 'r list"
  reviewOrder :: "(string \<times> string) list \<Rightarrow> (string \<times> string) list"

text \<open>
  What \<open>execute\<close> does that can be seen from outside: notifications, lines on the error
  console, the panel with the results, and \<open>handleError\<close>. Progress reports are left out.
\<close>

datatype 'e review_effect =
    Notify notification
  | ConsoleError string 'e
  | ShowReviewResults "(string \<times> string) list"
  | HandleError 'e string

text \<open>
  What a callback does after its call has finished runs without interruption, so a round
  is a loop over the calls in the order they finish. A \<open>Map\<close> is the list of its entries
  in insertion order, and \<open>set\<close> is \<^const>\<open>AList.update\<close>.
\<close>

definition collectDiff ::
  "('r, 'e) ReviewEnv \<Rightarrow> (string \<times> string) list \<times> 'e review_effect list \<Rightarrow> 'r
     \<Rightarrow> (string \<times> string) list \<times> 'e review_effect list" where
  "collectDiff env st resource =
     (let diffs = fst st; effects = snd st in
      case scmGetDiff env resource of
        Inr d \<Rightarrow>
          (case d of
             None \<Rightarrow> (diffs, effects)
           | Some s \<Rightarrow>
               if s \<noteq> [] then (AList.update (fsPath env resource) s diffs, effects)
               else (diffs, effects))
      | Inl error \<Rightarrow>
          (diffs,
           effects @ [ConsoleError (''Failed to get diff for '' @ fsPath env resource @ '':'') error]))"

definition reviewFile ::
  "('r, 'e) ReviewEnv \<Rightarrow> (string \<times> string) list \<times> 'e review_effect list \<Rightarrow> string \<times> string
     \<Rightarrow> (string \<times> string) list \<times> 'e review_effect list" where
  "reviewFile env st entry =
     (let fileReviews = fst st; effects = snd st; filePath = fst entry in
      case generateCodeReview env of
        None \<Rightarrow> (fileReviews, effects)
      | Some review \<Rightarrow>
          (case review entry of
             Inr reviewResult \<Rightarrow>
               (case reviewResult of
                  None \<Rightarrow> (fileReviews, effects)
                | Some c \<Rightarrow>
                    if c \<noteq> [] then (AList.update filePath c fileReviews, effects)
                    else (fileReviews, effects))
           | Inl error \<Rightarrow>
               (fileReviews,
                effects
                @ [Notify (Warn (Format ''review.file.failed'' [Literal (path_basename env filePath)])),
                   ConsoleError (''Failed to review '' @ filePath @ '':'') error])))"

definition execute :: "('r, 'e) ReviewEnv \<Rightarrow> 'r list \<Rightarrow> 'e review_effect list" where
  "execute env resources =
     (if \<not> handleConfiguration env then []
      else if length resources = 0 then [Notify (Warn (GetMessage ''no.changes.selected''))]
      else if \<not> detectSCMProvider env then []
      else
        (case getModelAndUpdateConfiguration env of
           Some error \<Rightarrow> [HandleError error ''code.review.failed'']
         | None \<Rightarrow>
             (let (diffs, effects) = foldl (collectDiff env) ([], []) (diffOrder env resources) in
              if length diffs = 0 then effects @ [Notify (Warn (GetMessage ''no.changes.found''))]
              else
                (let (fileReviews, effects) =
                       foldl (reviewFile env) ([], effects) (reviewOrder env diffs) in
                 if length fileReviews = 0
                 then effects @ [Notify (ErrorNote (GetMessage ''review.all.failed''))]
                 else
                   effects
                   @ [ShowReviewResults fileReviews,
                      Notify (Info (Format ''review.complete.count'' [Number (length fileReviews)]))]))))"

section \<open>Notions used in the statements\<close>

text \<open>The characters that open or close markup in HTML text and attribute values, and
  the five entities \<open>escapeHtml\<close> writes.\<close>

definition is_markup :: "char \<Rightarrow> bool" where
  "is_markup c = (c = CHR ''<'' \<or> c = CHR ''>'' \<or> c = CHR 0x22 \<or> c = CHR 0x27)"

definition entities :: "string list" where
  "entities = [''&amp;'', ''&lt;'', ''&gt;'', ''&quot;'', ''&#039;'']"

text \<open>Every ampersand starts an entity.\<close>

fun amp_ok :: "string \<Rightarrow> bool" where
  "amp_ok [] = True"
| "amp_ok (c # cs) = ((c \<noteq> CHR ''&'' \<or> (\<exists>e \<in> set entities. prefix e (c # cs))) \<and> amp_ok cs)"

text \<open>What the five replacements of \<open>escapeHtml\<close> make of one character.\<close>

definition escapeChar :: "char \<Rightarrow> string" where
  "escapeChar c =
     (if c = CHR ''&'' then ''&amp;''
      else if c = CHR ''<'' then ''&lt;''
      else if c = CHR ''>'' then ''&gt;''
      else if c = CHR 0x22 then ''&quot;''
      else if c = CHR 0x27 then ''&#039;''
      else [c])"

text \<open>A small schema and a manager, for the examples on the cache.\<close>

definition example_schema :: ConfigObject where
  "example_schema = Category [(''base'', Category [(''provider'', ConfigValue), (''model'', ConfigValue)]),
                       (''features'', Category [(''useEmoji'', ConfigValue)])]"

definition example_manager :: "nat ConfigurationManager" where
  "example_manager = \<lparr>configuration = (\<lambda>k. if k = ''base.provider'' then Some 1 else None),
               configCache = [''base.provider'' \<mapsto> Some 7, ''base.model'' \<mapsto> Some 5]\<rparr>"

text \<open>The attempts of \<open>generateResponse\<close>: attempt \<open>i\<close> has the budget shrunk \<open>i\<close> times, sends
  the request built with it as call number \<open>i\<close>, and gets the vendor's answer to that.\<close>

definition attemptBudget :: "AIRequestParams \<Rightarrow> nat \<Rightarrow> nat" where
  "attemptBudget params i = (shrink ^^ i) (initialInputLength params)"

definition attemptRequest :: "OpenAIEnv \<Rightarrow> AIRequestParams \<Rightarrow> nat \<Rightarrow> ChatRequest" where
  "attemptRequest env params i = buildRequest env params (attemptBudget params i)"

definition attemptAnswer :: "OpenAIEnv \<Rightarrow> AIRequestParams \<Rightarrow> nat \<Rightarrow> ApiError + Completion" where
  "attemptAnswer env params i = create env i (attemptRequest env params i)"

text \<open>Examples: a vendor that refuses twice for the context length, and an \<open>svn\<close> that
  prints nothing.\<close>

definition example_openai :: OpenAIEnv where
  "example_openai =
     \<lparr>create = (\<lambda>n request.
        if n < 2 then Inl \<lparr>err_message = Some ''This request exceeds the maximum context length of 8 tokens.''\<rparr>
        else Inr \<lparr>choices = [Some ''feat: add parser''],
                  usage = Some \<lparr>prompt_tokens = Some 12, completion_tokens = Some 4,
                                 total_tokens = Some 16\<rparr>\<rparr>),
      generateCommitMessageSystemPrompt = (\<lambda>language merge split scm. ''Write a commit message.''),
      default_language = ''English''\<rparr>"

definition example_params :: AIRequestParams where
  "example_params =
     \<lparr>diff = ''+0123456789'',
      model = Some \<lparr>model_id = ''gpt-4'', maxTokens = Some \<lparr>input_limit = 10, output_limit = 5\<rparr>\<rparr>,
      systemPrompt = None, language = None, allowMergeCommits = None,
      splitChangesInSingleFile = None, scm = Some ''svn''\<rparr>"

definition example_svn :: SvnEnv where
  "example_svn =
     \<lparr>exec = (\<lambda>command.
        if command = diffCommand (Some [''a.ts'']) then Inr ([], [])
        else if command = diffCommand (Some [''b.ts'']) then Inr ([], ''svn: E155010'')
        else if command = diffCommand (Some [''c.ts'']) then Inr (''+a   b'', [])
        else Inl \<lparr>exec_message = ''Command failed: svn diff'', exec_stdout = [],
                  exec_stderr = ''svn: E155007''\<rparr>),
      enableDiffSimplification = Some True,
      diffConfig = \<lparr>enabled = True, contextLines = 3, maxLineLength = 120\<rparr>\<rparr>"

text \<open>
  An \<open>svn\<close> that fails: on all changes the process exits with code 1 and has written
  nothing; on \<open>big.ts\<close> it has written a diff to standard output that overruns the buffer.
\<close>

definition failing_svn :: SvnEnv where
  "failing_svn =
     \<lparr>exec = (\<lambda>command.
        if command = ''svn diff'' then
          Inl \<lparr>exec_message = ''Command failed: svn diff'', exec_stdout = [], exec_stderr = []\<rparr>
        else
          Inl \<lparr>exec_message = ''stdout maxBuffer length exceeded'',
                exec_stdout = ''Index: big.ts\<newline>+x'', exec_stderr = []\<rparr>),
      enableDiffSimplification = Some False,
      diffConfig = \<lparr>enabled = True, contextLines = 3, maxLineLength = 120\<rparr>\<rparr>"

text \<open>
  The batch of \<open>execute\<close>, said without the loop: the entry a resource adds to \<open>diffs\<close>
  (its path and its diff, when the diff call returns a non-empty string), the entry a
  collected diff adds to \<open>fileReviews\<close> (when the review call returns a non-empty content),
  whether the review call throws, and the two maps for a list of resources, their entries
  in the order in which the calls finish.
\<close>

definition diffEntry :: "('r, 'e) ReviewEnv \<Rightarrow> 'r \<Rightarrow> (string \<times> string) option" where
  "diffEntry env resource =
     (case scmGetDiff env resource of
        Inl _ \<Rightarrow> None
      | Inr None \<Rightarrow> None
      | Inr (Some s) \<Rightarrow> if s \<noteq> [] then Some (fsPath env resource, s) else None)"

definition reviewEntry :: "('r, 'e) ReviewEnv \<Rightarrow> string \<times> string \<Rightarrow> (string \<times> string) option" where
  "reviewEntry env entry =
     (case generateCodeReview env of
        None \<Rightarrow> None
      | Some review \<Rightarrow>
          (case review entry of
             Inl _ \<Rightarrow> None
           | Inr None \<Rightarrow> None
           | Inr (Some c) \<Rightarrow> if c \<noteq> [] then Some (fst entry, c) else None))"

definition reviewThrows :: "('r, 'e) ReviewEnv \<Rightarrow> string \<times> string \<Rightarrow> bool" where
  "reviewThrows env entry =
     (case generateCodeReview env of
        None \<Rightarrow> False
      | Some review \<Rightarrow> (case review entry of Inl _ \<Rightarrow> True | Inr _ \<Rightarrow> False))"

definition collected :: "('r, 'e) ReviewEnv \<Rightarrow> 'r list \<Rightarrow> (string \<times> string) list" where
  "collected env resources = List.map_filter (diffEntry env) (diffOrder env resources)"

definition reviewed :: "('r, 'e) ReviewEnv \<Rightarrow> 'r list \<Rightarrow> (string \<times> string) list" where
  "reviewed env resources =
     List.map_filter (reviewEntry env) (reviewOrder env (collected env resources))"

text \<open>What is read off the effects of a run: the base names in the warnings
  \<open>review.file.failed\<close>, the error notifications, and the results shown in a panel.\<close>

definition reviewFailedWarnings :: "'e review_effect list \<Rightarrow> string list" where
  "reviewFailedWarnings effects =
     List.map_filter
       (\<lambda>e. case e of
               Notify (Warn (Format k [Literal name])) \<Rightarrow>
                 if k = ''review.file.failed'' then Some name else None
             | _ \<Rightarrow> None) effects"

definition errorNotes :: "'e review_effect list \<Rightarrow> message list" where
  "errorNotes effects =
     List.map_filter (\<lambda>e. case e of Notify (ErrorNote m) \<Rightarrow> Some m | _ \<Rightarrow> None) effects"

definition shownResults :: "'e review_effect list \<Rightarrow> (string \<times> string) list list" where
  "shownResults effects =
     List.map_filter (\<lambda>e. case e of ShowReviewResults r \<Rightarrow> Some r | _ \<Rightarrow> None) effects"

text \<open>The effects of the two rounds: a console line for each diff call that throws; a
  warning and a console line for each review call that throws.\<close>

definition diffLog :: "('r, 'e) ReviewEnv \<Rightarrow> 'r list \<Rightarrow> 'e review_effect list" where
  "diffLog env resources =
     concat (map (\<lambda>r. case scmGetDiff env r of
                         Inl error \<Rightarrow> [ConsoleError (''Failed to get diff for '' @ fsPath env r @ '':'') error]
                       | Inr _ \<Rightarrow> []) resources)"

definition reviewLog :: "('r, 'e) ReviewEnv \<Rightarrow> (string \<times> string) list \<Rightarrow> 'e review_effect list" where
  "reviewLog env diffs =
     concat (map (\<lambda>entry.
        case generateCodeReview env of
          None \<Rightarrow> []
        | Some review \<Rightarrow>
            (case review entry of
               Inl error \<Rightarrow>
                 [Notify (Warn (Format ''review.file.failed'' [Literal (path_basename env (fst entry))])),
                  ConsoleError (''Failed to review '' @ fst entry @ '':'') error]
             | Inr _ \<Rightarrow> [])) diffs)"

text \<open>Four files: the diff call of \<open>b\<close> throws, the review of \<open>c\<close> returns no content,
  the review of \<open>d\<close> throws. The diff calls finish in the reverse of the order in which
  they were started.\<close>

definition example_review :: "(string, string) ReviewEnv" where
  "example_review =
     \<lparr>handleConfiguration = True,
      detectSCMProvider = True,
      getModelAndUpdateConfiguration = None,
      fsPath = (\<lambda>r. ''/w/'' @ r @ ''.ts''),
      scmGetDiff = (\<lambda>r. if r = ''b'' then Inl ''svn: E155007'' else Inr (Some ''+x'')),
      generateCodeReview = Some (\<lambda>entry.
        if fst entry = ''/w/c.ts'' then Inr None
        else if fst entry = ''/w/d.ts'' then Inl ''timeout''
        else Inr (Some ''looks fine'')),
      path_basename = drop 3,
      diffOrder = rev,
      reviewOrder = (\<lambda>diffs. diffs)\<rparr>"

text \<open>
  The shape of a compressed line. A body is single-spaced when its whitespace is single
  spaces, each followed by a character that is not whitespace; a normal body is
  single-spaced and does not start with whitespace. A normal line is empty, or a marker
  (\<open>+\<close>, \<open>-\<close> or a space), at most two spaces and a normal body, or a normal body that
  does not start with a marker.
\<close>

fun single_spaced :: "string \<Rightarrow> bool" where
  "single_spaced [] = True"
| "single_spaced [c] = (\<not> is_ws c)"
| "single_spaced (c # d # cs) = ((\<not> is_ws c \<or> (c = CHR '' '' \<and> \<not> is_ws d)) \<and> single_spaced (d # cs))"

definition normal_body :: "string \<Rightarrow> bool" where
  "normal_body b = (single_spaced b \<and> (b = [] \<or> \<not> is_ws (hd b)))"

definition is_marker :: "char \<Rightarrow> bool" where
  "is_marker c = (c = CHR ''+'' \<or> c = CHR '' '' \<or> c = CHR ''-'')"

definition normal_line :: "string \<Rightarrow> bool" where
  "normal_line s =
     (s = [] \<or>
      (\<exists>q k b. s = q # replicate k CHR '' '' @ b \<and> is_marker q \<and> k \<le> 2 \<and> normal_body b) \<or>
      (\<not> is_marker (hd s) \<and> normal_body s))"

text \<open>
  A context line is one whose compressed form is neither a header nor a changed line.
  \<open>counterReset pre\<close>: going back from the end of \<open>pre\<close> over header lines, the first
  other line is a changed line, or there is none.
\<close>

definition isContextLine :: "string \<Rightarrow> bool" where
  "isContextLine l = (\<not> isHeaderLine (compressLine l) \<and> \<not> isChangeLine (compressLine l))"

definition counterReset :: "string list \<Rightarrow> bool" where
  "counterReset pre =
     (case dropWhile (\<lambda>l. isHeaderLine (compressLine l)) (rev pre) of
        [] \<Rightarrow> True
      | c # _ \<Rightarrow> isChangeLine (compressLine c))"

section \<open>Line truncation\<close>

lemma truncateLine_long:
  assumes "3 \<le> m" "m < int (length line)"
  shows "int (length (truncateLine line m)) = m" "suffix ''...'' (truncateLine line m)"
  using assms by (auto simp: truncateLine_def suffix_def)

lemma truncateLine_short: "int (length line) \<le> m \<Longrightarrow> truncateLine line m = line"
  by (simp add: truncateLine_def)

section \<open>HTML escaping\<close>

lemma replace_all_append: "replace_all c r (s @ t) = replace_all c r s @ replace_all c r t"
  by (simp add: replace_all_def)

lemma replace_all_concat: "replace_all c r (concat (map f s)) = concat (map (\<lambda>x. replace_all c r (f x)) s)"
  by (induction s) (simp_all add: replace_all_append, simp add: replace_all_def)

lemma escapeHtml_chars: "escapeHtml s = concat (map escapeChar s)"
proof -
  have "escapeHtml s =
    concat (map (\<lambda>x. replace_all (CHR 0x27) ''&#039;'' (replace_all (CHR 0x22) ''&quot;''
         (replace_all CHR ''>'' ''&gt;'' (replace_all CHR ''<'' ''&lt;''
           (if x = CHR ''&'' then ''&amp;'' else [x]))))) s)"
  proof -
    have first: "replace_all CHR ''&'' ''&amp;'' s =
        concat (map (\<lambda>x. if x = CHR ''&'' then ''&amp;'' else [x]) s)"
      by (simp add: replace_all_def)
    show ?thesis
      unfolding escapeHtml_def first by (simp only: replace_all_concat)
  qed
  also have "\<dots> = concat (map escapeChar s)"
    by (rule arg_cong [where f = concat], rule map_cong [OF refl])
       (simp add: replace_all_def escapeChar_def)
  finally show ?thesis .
qed

lemma escapeChar_no_markup: "filter is_markup (escapeChar c) = []"
  by (simp add: escapeChar_def is_markup_def)

lemma escapeHtml_no_markup: "filter is_markup (escapeHtml s) = []"
  by (induction s) (simp_all add: escapeHtml_chars escapeChar_no_markup)

lemma amp_ok_escapeChar: "amp_ok t \<Longrightarrow> amp_ok (escapeChar c @ t)"
  by (simp add: escapeChar_def entities_def)

lemma amp_ok_escapeHtml: "amp_ok (escapeHtml s)"
  by (induction s) (simp_all add: escapeHtml_chars amp_ok_escapeChar)

lemma amp_ok_nth:
  "amp_ok t \<Longrightarrow> i < length t \<Longrightarrow> t ! i = CHR ''&'' \<Longrightarrow> \<exists>e \<in> set entities. prefix e (drop i t)"
proof (induction t arbitrary: i)
  case Nil
  then show ?case by simp
next
  case (Cons c cs)
  show ?case
  proof (cases i)
    case 0
    with Cons.prems show ?thesis by auto
  next
    case (Suc j)
    with Cons.prems Cons.IH [of j] show ?thesis by auto
  qed
qed


lemma filter_join_nl: "\<not> P (CHR 0x0A) \<Longrightarrow> filter P (join_nl ls) = concat (map (filter P) ls)"
  by (induction ls rule: join_nl.induct) simp_all

lemma filter_reviewSection:
  "filter is_markup (reviewSection b entry) = filter is_markup (reviewSection b ([], []))"
  by (simp add: reviewSection_def escapeHtml_no_markup)

lemma filter_sections:
  "filter is_markup (join_nl (map (reviewSection b) frs)) =
   filter is_markup (join_nl (map (reviewSection b) (map (\<lambda>_. ([], [])) frs)))"
proof -
  have nl: "\<not> is_markup (CHR 0x0A)" by (simp add: is_markup_def)
  define K where "K = filter is_markup (reviewSection b ([], []))"
  have k: "filter is_markup (reviewSection b e) = K" for e
    unfolding K_def by (rule filter_reviewSection)
  have "concat (map (filter is_markup) (map (reviewSection b) frs)) =
        concat (map (filter is_markup) (map (reviewSection b) (map (\<lambda>_. ([], [])) frs)))"
    by (induction frs) (simp_all add: k)
  then show ?thesis
    using filter_join_nl [of is_markup, OF nl] by simp
qed

text \<open>
  C9: the result of \<open>escapeHtml\<close> holds none of \<open><\<close>, \<open>>\<close>, the double quote and the
  apostrophe, and each of its ampersands starts one of the five entities. So the markup
  characters of the document \<open>getWebviewContent\<close> builds are those of the same document
  with every file name and every review text empty: names and texts add none.
\<close>

theorem escapeHtml_escapes:
  "CHR ''<'' \<notin> set (escapeHtml s) \<and> CHR ''>'' \<notin> set (escapeHtml s) \<and>
   CHR 0x22 \<notin> set (escapeHtml s) \<and> CHR 0x27 \<notin> set (escapeHtml s) \<and>
   (\<forall>i < length (escapeHtml s). escapeHtml s ! i = CHR ''&'' \<longrightarrow>
      (\<exists>e \<in> set entities. prefix e (drop i (escapeHtml s)))) \<and>
   filter is_markup (getWebviewContent b title frs) =
     filter is_markup (getWebviewContent b title (map (\<lambda>_. ([], [])) frs))"
proof -
  have "\<forall>c \<in> set (escapeHtml s). \<not> is_markup c"
    using escapeHtml_no_markup [of s] by (simp add: filter_empty_conv)
  then have chars: "CHR ''<'' \<notin> set (escapeHtml s)" "CHR ''>'' \<notin> set (escapeHtml s)"
    "CHR 0x22 \<notin> set (escapeHtml s)" "CHR 0x27 \<notin> set (escapeHtml s)"
    by (auto simp: is_markup_def)
  have amp: "\<forall>i < length (escapeHtml s). escapeHtml s ! i = CHR ''&'' \<longrightarrow>
      (\<exists>e \<in> set entities. prefix e (drop i (escapeHtml s)))"
    using amp_ok_nth [OF amp_ok_escapeHtml] by blast
  have doc: "filter is_markup (getWebviewContent b title frs) =
     filter is_markup (getWebviewContent b title (map (\<lambda>_. ([], [])) frs))"
    unfolding getWebviewContent_def Let_def filter_append filter_sections [of b frs] ..
  from chars amp doc show ?thesis by blast
qed

theorem escapeHtml_escapes_witness:
  "escapeHtml ''a&<'' = ''a&amp;&lt;'' \<and> CHR ''<'' \<notin> set (escapeHtml ''a&<'') \<and>
   (1::nat) < length (escapeHtml ''a&<'') \<and> escapeHtml ''a&<'' ! 1 = CHR ''&'' \<and>
   (\<exists>e \<in> set entities. prefix e (drop 1 (escapeHtml ''a&<'')))"
proof -
  have v: "escapeHtml ''a&<'' = ''a&amp;&lt;''"
    by (simp add: escapeHtml_def replace_all_def)
  have "\<forall>i < length (escapeHtml ''a&<''). escapeHtml ''a&<'' ! i = CHR ''&'' \<longrightarrow>
      (\<exists>e \<in> set entities. prefix e (drop i (escapeHtml ''a&<'')))"
    using escapeHtml_escapes [of "''a&<''"] by blast
  then have "(1::nat) < length (escapeHtml ''a&<'') \<longrightarrow> escapeHtml ''a&<'' ! 1 = CHR ''&'' \<longrightarrow>
      (\<exists>e \<in> set entities. prefix e (drop 1 (escapeHtml ''a&<'')))"
    by blast
  moreover have "(1::nat) < length (escapeHtml ''a&<'')" "escapeHtml ''a&<'' ! 1 = CHR ''&''"
    by (simp_all add: v)
  moreover have "CHR ''<'' \<notin> set (escapeHtml ''a&<'')"
    using escapeHtml_escapes [of "''a&<''"] by blast
  ultimately show ?thesis using v by blast
qed

section \<open>The configuration cache\<close>

lemma updateConfigCache_Nil: "updateConfigCache this [] = this"
  by (simp add: updateConfigCache_def)

lemma updateConfigCache_Cons:
  "updateConfigCache this (key # keys) =
     updateConfigCache
       (case configuration this key of
          None \<Rightarrow> this
        | Some v \<Rightarrow> this\<lparr>configCache := (configCache this)(key \<mapsto> Some v)\<rparr>) keys"
  by (simp add: updateConfigCache_def getUpdatedValue_def)

lemma updateConfigCache_cache:
  "configCache (updateConfigCache this keys) k =
     (if k \<in> set keys \<and> configuration this k \<noteq> None then Some (configuration this k)
      else configCache this k)"
proof (induction keys arbitrary: this)
  case Nil
  then show ?case by (simp add: updateConfigCache_Nil)
next
  case (Cons key keys)
  show ?case
    by (cases "configuration this key") (auto simp: Cons.IH updateConfigCache_Cons)
qed

lemma getConfig_cached:
  "configCache this (replace_first ''dish-ai-commit.'' [] (ConfigKeys key)) = Some v \<Longrightarrow>
   fst (getConfig ConfigKeys this key True) = v"
  by (simp add: getConfig_def Let_def)

lemma onDidChangeConfiguration_cache:
  "configCache (fst (onDidChangeConfiguration ext schema this affects fresh)) k =
   configCache (updateConfigCache this (getChangedConfigurationKeys ext schema affects)) k"
  by (simp add: onDidChangeConfiguration_def Let_def updateConfigCache_Nil)

text \<open>
  C7: the listener changes the cache entry of no key outside the changed keys (in
  particular when one leaf key changed), so \<open>getConfig\<close> with the cache, asked after the
  event for the setting of such a key, returns the value cached before the event.
\<close>

theorem unaffected_keys_keep_cache:
  assumes "k \<notin> set (getChangedConfigurationKeys ext schema affects)"
  shows "configCache (fst (onDidChangeConfiguration ext schema this affects fresh)) k = configCache this k \<and>
         (\<forall>key v. replace_first ''dish-ai-commit.'' [] (ConfigKeys key) = k \<and> configCache this k = Some v \<longrightarrow>
            fst (getConfig ConfigKeys (fst (onDidChangeConfiguration ext schema this affects fresh)) key True) = v)"
proof -
  have c: "configCache (fst (onDidChangeConfiguration ext schema this affects fresh)) k = configCache this k"
    using assms by (simp add: onDidChangeConfiguration_cache updateConfigCache_cache)
  then show ?thesis by (auto intro: getConfig_cached)
qed

text \<open>
  C10: when reading a key through the handle gives \<open>undefined\<close>, \<open>updateConfigCache\<close>
  leaves the entry the cache has for the key as it is, whichever keys are reported
  changed, and \<open>getConfig\<close> with the cache returns that value after the event.
\<close>

theorem stale_entry_kept:
  assumes "getUpdatedValue this k = None"
    and "configCache this k = Some v"
  shows "configCache (updateConfigCache this changedKeys) k = Some v \<and>
         (\<forall>key. replace_first ''dish-ai-commit.'' [] (ConfigKeys key) = k \<longrightarrow>
            fst (getConfig ConfigKeys (fst (onDidChangeConfiguration ext schema this affects fresh)) key True) = v)"
proof -
  have u: "configCache (updateConfigCache this keys) k = Some v" for keys
    using assms by (simp add: updateConfigCache_cache getUpdatedValue_def)
  have "configCache (fst (onDidChangeConfiguration ext schema this affects fresh)) k = Some v"
    by (simp add: onDidChangeConfiguration_cache u)
  with u show ?thesis by (auto intro: getConfig_cached)
qed

lemma example_changed: "getChangedConfigurationKeys ''dish-ai-commit'' example_schema (\<lambda>k. k = ''dish-ai-commit.base.model'') = [''base.model'']"
  by (simp add: getChangedConfigurationKeys_def example_schema_def)

lemma example_strip: "replace_first ''dish-ai-commit.'' [] (''dish-ai-commit.'' @ ''base.provider'') = ''base.provider''"
  by (simp add: startsWith_def)

theorem unaffected_keys_keep_cache_witness:
  "getChangedConfigurationKeys ''dish-ai-commit'' example_schema (\<lambda>k. k = ''dish-ai-commit.base.model'') = [''base.model''] \<and>
   configCache example_manager ''base.provider'' = Some (Some 7) \<and>
   fst (getConfig (\<lambda>k. ''dish-ai-commit.'' @ k)
         (fst (onDidChangeConfiguration ''dish-ai-commit'' example_schema example_manager
                 (\<lambda>k. k = ''dish-ai-commit.base.model'') (\<lambda>k. Some 9)))
         ''base.provider'' True) = Some 7"
proof -
  have cached: "configCache example_manager ''base.provider'' = Some (Some 7)"
    by (simp add: example_manager_def)
  have "''base.provider'' \<notin> set (getChangedConfigurationKeys ''dish-ai-commit'' example_schema (\<lambda>k. k = ''dish-ai-commit.base.model''))"
    by (simp add: example_changed)
  from unaffected_keys_keep_cache [OF this, of example_manager "\<lambda>k. Some 9" "\<lambda>k. ''dish-ai-commit.'' @ k"]
  have "fst (getConfig (\<lambda>k. ''dish-ai-commit.'' @ k)
         (fst (onDidChangeConfiguration ''dish-ai-commit'' example_schema example_manager
                 (\<lambda>k. k = ''dish-ai-commit.base.model'') (\<lambda>k. Some 9)))
         ''base.provider'' True) = Some 7"
    using example_strip cached by blast
  with example_changed cached show ?thesis by blast
qed

theorem stale_entry_kept_witness:
  "getChangedConfigurationKeys ''dish-ai-commit'' example_schema (\<lambda>k. k = ''dish-ai-commit.base.model'') = [''base.model''] \<and>
   getUpdatedValue example_manager ''base.model'' = None \<and>
   configCache example_manager ''base.model'' = Some (Some 5) \<and>
   configCache (updateConfigCache example_manager [''base.model'']) ''base.model'' = Some (Some 5) \<and>
   fst (getConfig (\<lambda>k. ''dish-ai-commit.'' @ k)
         (fst (onDidChangeConfiguration ''dish-ai-commit'' example_schema example_manager
                 (\<lambda>k. k = ''dish-ai-commit.base.model'') (\<lambda>k. None)))
         ''base.model'' True) = Some 5"
proof -
  have a: "getUpdatedValue example_manager ''base.model'' = None"
    by (simp add: getUpdatedValue_def example_manager_def)
  have b: "configCache example_manager ''base.model'' = Some (Some 5)"
    by (simp add: example_manager_def)
  have s: "replace_first ''dish-ai-commit.'' [] (''dish-ai-commit.'' @ ''base.model'') = ''base.model''"
    by (simp add: startsWith_def)
  from stale_entry_kept [OF a b, of "[''base.model'']" "\<lambda>k. ''dish-ai-commit.'' @ k" "''dish-ai-commit''" example_schema
      "\<lambda>k. k = ''dish-ai-commit.base.model''" "\<lambda>k. None"]
  show ?thesis using a b s example_changed by blast
qed

section \<open>Errors of the diff command\<close>

lemma trim_empty_iff: "trim s = [] \<longleftrightarrow> (\<forall>c \<in> set s. is_ws c)"
proof
  assume "trim s = []"
  then have all: "\<forall>c \<in> set (dropWhile is_ws s). is_ws c"
    by (simp add: trim_def)
  have "dropWhile is_ws s = []"
  proof (rule ccontr)
    assume ne: "dropWhile is_ws s \<noteq> []"
    then have "\<not> is_ws (hd (dropWhile is_ws s))" by (rule hd_dropWhile)
    moreover from ne have "hd (dropWhile is_ws s) \<in> set (dropWhile is_ws s)" by simp
    ultimately show False using all by blast
  qed
  then show "\<forall>c \<in> set s. is_ws c" by simp
next
  assume "\<forall>c \<in> set s. is_ws c"
  then show "trim s = []" by (auto simp: trim_def dest: set_dropWhileD)
qed

text \<open>
  C6, as stated, fails when \<open>exec\<close> rejects. With both streams empty the call throws the
  error of \<open>exec\<close>, not the localized \<open>diff.noChanges\<close> error; with a diff on standard
  output and an empty error stream the call throws and returns no diff.
\<close>

theorem getDiff_outcomes_counterexample:
  "(\<exists>e. exec failing_svn (diffCommand None) = Inl e \<and> exec_stderr e = [] \<and> exec_stdout e = []) \<and>
   diff_result (getDiff failing_svn None) = Inl (Literal ''Command failed: svn diff'') \<and>
   diff_result (getDiff failing_svn None) \<noteq> Inl (GetMessage ''diff.noChanges'') \<and>
   (\<exists>e. exec failing_svn (diffCommand (Some [''big.ts''])) = Inl e \<and> exec_stderr e = [] \<and>
        exec_stdout e = ''Index: big.ts\<newline>+x'') \<and>
   diff_result (getDiff failing_svn (Some [''big.ts''])) =
     Inl (Literal ''stdout maxBuffer length exceeded'')"
  by (simp add: getDiff_def diffFailed_def failing_svn_def diffCommand_def)

text \<open>
  C6, amended: for every call of \<open>getDiff\<close>: when \<open>exec\<close> rejects (the process cannot be
  started, exits with a code other than 0, or overruns the buffer), the call throws the
  error of \<open>exec\<close>, whatever the two streams hold. When \<open>exec\<close> resolves: the call throws an
  error with the text of the error stream if that is not empty; throws the localized
  \<open>diff.noChanges\<close> error if the error stream is empty and standard output is empty or
  only whitespace; and otherwise returns the diff, simplified by the loop of \<open>simplify\<close>
  exactly when both the setting \<open>enableDiffSimplification\<close> is on and the configuration
  of the simplifier is enabled, and as \<open>svn\<close> wrote it when either is off.
\<close>

theorem getDiff_outcomes:
  "(\<forall>e. exec env (diffCommand files) = Inl e \<longrightarrow>
        diff_result (getDiff env files) = Inl (Literal (exec_message e))) \<and>
   (\<forall>stdout stderr. exec env (diffCommand files) = Inr (stdout, stderr) \<longrightarrow>
      (stderr \<noteq> [] \<longrightarrow> diff_result (getDiff env files) = Inl (Literal stderr)) \<and>
      (stderr = [] \<and> (\<forall>c \<in> set stdout. is_ws c) \<longrightarrow>
         diff_result (getDiff env files) = Inl (GetMessage ''diff.noChanges'')) \<and>
      (stderr = [] \<and> (\<exists>c \<in> set stdout. \<not> is_ws c) \<longrightarrow>
         diff_result (getDiff env files) =
           Inr (if enableDiffSimplification env = Some True \<and> enabled (diffConfig env)
                then join_nl (fst (simplifyLoop (diffConfig env) ([], 0) (split_nl stdout)))
                else stdout)))"
proof (intro conjI allI impI)
  fix e
  assume "exec env (diffCommand files) = Inl e"
  then show "diff_result (getDiff env files) = Inl (Literal (exec_message e))"
    by (simp add: getDiff_def diffFailed_def)
next
  fix stdout stderr
  assume "exec env (diffCommand files) = Inr (stdout, stderr)" "stderr \<noteq> []"
  then show "diff_result (getDiff env files) = Inl (Literal stderr)"
    by (simp add: getDiff_def diffFailed_def)
next
  fix stdout stderr
  assume "exec env (diffCommand files) = Inr (stdout, stderr)"
    "stderr = [] \<and> (\<forall>c \<in> set stdout. is_ws c)"
  then show "diff_result (getDiff env files) = Inl (GetMessage ''diff.noChanges'')"
    using trim_empty_iff [of stdout] by (simp add: getDiff_def diffFailed_def)
next
  fix stdout stderr
  assume "exec env (diffCommand files) = Inr (stdout, stderr)"
    "stderr = [] \<and> (\<exists>c \<in> set stdout. \<not> is_ws c)"
  then show "diff_result (getDiff env files) =
      Inr (if enableDiffSimplification env = Some True \<and> enabled (diffConfig env)
           then join_nl (fst (simplifyLoop (diffConfig env) ([], 0) (split_nl stdout)))
           else stdout)"
    using trim_empty_iff [of stdout] by (auto simp: getDiff_def simplify_def)
qed

lemma example_exec:
  "exec example_svn (diffCommand (Some [''a.ts''])) = Inr ([], [])"
  "exec example_svn (diffCommand (Some [''b.ts''])) = Inr ([], ''svn: E155010'')"
  "exec example_svn (diffCommand (Some [''c.ts''])) = Inr (''+a   b'', [])"
  "exec example_svn (diffCommand None) =
     Inl \<lparr>exec_message = ''Command failed: svn diff'', exec_stdout = [],
          exec_stderr = ''svn: E155007''\<rparr>"
  by (simp_all add: example_svn_def diffCommand_def)

theorem getDiff_outcomes_witness:
  "exec example_svn (diffCommand (Some [''a.ts''])) = Inr ([], []) \<and>
   diff_result (getDiff example_svn (Some [''a.ts''])) = Inl (GetMessage ''diff.noChanges'') \<and>
   exec example_svn (diffCommand (Some [''b.ts''])) = Inr ([], ''svn: E155010'') \<and>
   diff_result (getDiff example_svn (Some [''b.ts''])) = Inl (Literal ''svn: E155010'') \<and>
   exec example_svn (diffCommand (Some [''c.ts''])) = Inr (''+a   b'', []) \<and>
   enableDiffSimplification example_svn = Some True \<and> enabled (diffConfig example_svn) \<and>
   diff_result (getDiff example_svn (Some [''c.ts''])) = Inr ''+a b'' \<and>
   exec example_svn (diffCommand None) =
     Inl \<lparr>exec_message = ''Command failed: svn diff'', exec_stdout = [],
          exec_stderr = ''svn: E155007''\<rparr> \<and>
   diff_result (getDiff example_svn None) = Inl (Literal ''Command failed: svn diff'')"
proof -
  have c: "enableDiffSimplification example_svn = Some True" "enabled (diffConfig example_svn)"
    by (simp_all add: example_svn_def)
  have l: "join_nl (fst (simplifyLoop (diffConfig example_svn) ([], 0) [''+a   b''])) = ''+a b''"
    by (simp add: example_svn_def simplifyLoop_def simplifyStep_def compressLine_def trim_def
        is_ws_def isHeaderLine_def isChangeLine_def startsWith_def truncateLine_def)
  have ws: "\<exists>c \<in> set ''+a   b''. \<not> is_ws c" by (simp add: is_ws_def)
  note t = getDiff_outcomes [of example_svn]
  from t [of "Some [''a.ts'']"] have a: "diff_result (getDiff example_svn (Some [''a.ts''])) =
      Inl (GetMessage ''diff.noChanges'')"
    by (simp add: example_exec)
  from t [of "Some [''b.ts'']"] have b: "diff_result (getDiff example_svn (Some [''b.ts''])) =
      Inl (Literal ''svn: E155010'')"
    by (simp add: example_exec)
  from t [of "Some [''c.ts'']"] ws have d: "diff_result (getDiff example_svn (Some [''c.ts''])) =
      Inr ''+a b''"
    by (simp add: example_exec c l)
  from t [of None] have n: "diff_result (getDiff example_svn None) =
      Inl (Literal ''Command failed: svn diff'')"
    by (simp add: example_exec)
  from a b d n show ?thesis by (simp add: example_exec c)
qed


section \<open>The retry loop\<close>

lemma attemptBudget_0: "attemptBudget params 0 = initialInputLength params"
  by (simp add: attemptBudget_def)

lemma bit_length_le: "p < 2 ^ k \<Longrightarrow> bit_length p \<le> k"
proof (induction k arbitrary: p)
  case 0
  then show ?case by (simp add: bit_length.simps)
next
  case (Suc k)
  show ?case
  proof (cases "p = 0")
    case True
    then show ?thesis by (simp add: bit_length.simps)
  next
    case False
    have "p div 2 < 2 ^ k" using Suc.prems by simp
    then have "bit_length (p div 2) \<le> k" by (rule Suc.IH)
    then show ?thesis using False by (subst bit_length.simps) simp
  qed
qed

lemma round_double_bounds:
  "\<exists>s q. s \<le> bit_length p - 53 \<and> round_double p = q * 2 ^ s \<and> p div 2 ^ s \<le> q \<and> q \<le> p div 2 ^ s + 1"
proof (cases "bit_length p \<le> 53")
  case True
  then have "round_double p = p * 2 ^ 0" by (simp add: round_double_def)
  then show ?thesis by (intro exI [of _ 0] exI [of _ p]) simp
next
  case False
  let ?s = "bit_length p - 53"
  let ?q = "if 2 * (p mod 2 ^ ?s) > 2 ^ ?s \<or> (2 * (p mod 2 ^ ?s) = 2 ^ ?s \<and> odd (p div 2 ^ ?s))
            then p div 2 ^ ?s + 1 else p div 2 ^ ?s"
  have "round_double p = ?q * 2 ^ ?s" using False by (simp add: round_double_def Let_def)
  moreover have "p div 2 ^ ?s \<le> ?q" "?q \<le> p div 2 ^ ?s + 1" by simp_all
  ultimately show ?thesis by blast
qed

lemma shrink_exact:
  assumes "n < 2 ^ 50"
  shows "shrink n = n * 4 div 5"
proof -
  define T :: nat where "T = 2 ^ 52"
  define P where "P = n * 3602879701896397"
  define m where "m = n * 4 div 5"
  have T: "T = 4503599627370496" by (simp add: T_def)
  have n4: "4 * n < T" using assms by (simp add: T)
  have P5: "5 * P = 4 * (n * T) + n" by (simp add: P_def T)
  have "P < 2 ^ 50 * 3602879701896397" using assms by (simp add: P_def)
  also have "\<dots> \<le> (2::nat) ^ 102" by simp
  finally have P102: "P < 2 ^ 102" .
  obtain s q where s: "s \<le> bit_length P - 53" and r: "round_double P = q * 2 ^ s"
    and lo: "P div 2 ^ s \<le> q" and hi: "q \<le> P div 2 ^ s + 1"
    using round_double_bounds [of P] by blast
  define E :: nat where "E = 2 ^ s"
  define D :: nat where "D = 2 ^ (52 - s)"
  have s49: "s \<le> 49" using s bit_length_le [OF P102] by simp
  have "E \<le> 2 ^ 49" unfolding E_def by (rule power_increasing) (use s49 in simp_all)
  then have E8: "8 * E \<le> T" by (simp add: T)
  have E0: "0 < E" by (simp add: E_def)
  have TDE: "T = D * E" using s49 by (simp add: T_def D_def E_def power_add [symmetric])
  have "5 * m + n * 4 mod 5 = n * 4" unfolding m_def by (rule mult_div_mod_eq)
  moreover have "n * 4 mod 5 < 5" by simp
  ultimately have m5: "5 * m \<le> 4 * n" "4 * n \<le> 5 * m + 4" by linarith+
  have mT1: "5 * (m * T) \<le> 4 * (n * T)"
    using mult_le_mono1 [OF m5(1), of T] by (simp add: mult.assoc)
  have mT2: "4 * (n * T) \<le> 5 * (m * T) + 4 * T"
    using mult_le_mono1 [OF m5(2), of T] by (simp add: algebra_simps)
  have mP: "m * T \<le> P" using mT1 P5 by linarith
  have lower: "m * T \<le> q * E"
  proof -
    have "(m * D) * E \<le> P" using mP by (simp add: TDE mult.assoc)
    then have "m * D \<le> P div E" using E0 by (simp add: less_eq_div_iff_mult_less_eq)
    then have "m * D \<le> q" using lo by (simp add: E_def)
    then have "(m * D) * E \<le> q * E" by (rule mult_le_mono1)
    then show ?thesis by (simp add: TDE mult.assoc)
  qed
  have upper: "q * E < (m + 1) * T"
  proof -
    have "q \<le> P div E + 1" using hi by (simp add: E_def)
    then have "q * E \<le> (P div E + 1) * E" by (rule mult_le_mono1)
    also have "\<dots> = (P div E) * E + E" by (simp add: algebra_simps)
    also have "\<dots> \<le> P + E" by simp
    finally have a: "q * E \<le> P + E" .
    have small: "n + 5 * E < T" using n4 E8 by linarith
    have "5 * (P + E) = 5 * P + 5 * E" by simp
    also have "\<dots> = 4 * (n * T) + (n + 5 * E)" using P5 by simp
    also have "\<dots> < 5 * (m * T) + 4 * T + T" using mT2 small by linarith
    finally have "5 * (P + E) < 5 * (m * T) + 5 * T" by simp
    then have "P + E < (m + 1) * T" by (simp add: algebra_simps)
    with a show ?thesis by linarith
  qed
  have "q * E div T = m"
    by (rule div_nat_eqI) (use lower upper in \<open>simp_all add: mult.commute\<close>)
  then show ?thesis by (simp add: shrink_def r P_def [symmetric] E_def T_def m_def)
qed

text \<open>
  A bound is needed: a budget above \<open>2^50\<close> at which the floor of the rounded product is
  not \<open>\<lfloor>4b/5\<rfloor>\<close>.
\<close>

lemma shrink_large: "shrink 1688849860263936 = 1351079888211149"
  "(1688849860263936::nat) * 4 div 5 = 1351079888211148"
  by (simp_all add: shrink_def round_double_def bit_length.simps Let_def)

lemma attemptBudget_Suc: "attemptBudget params (Suc i) = shrink (attemptBudget params i)"
  by (simp add: attemptBudget_def)

lemma loop_success:
  "create env (length sent) (buildRequest env params b) = Inr c \<Longrightarrow>
   generateLoop env params r b sent =
     \<lparr>outcome = Inr (toResponse c), requests = sent @ [buildRequest env params b],
      notifications = (if length (diff params) > b then [Warn (GetMessage ''openai.input.truncated'')] else [])\<rparr>"
  by (subst generateLoop.simps) (simp add: Let_def)

lemma loop_retry:
  "create env (length sent) (buildRequest env params b) = Inl e \<Longrightarrow> r < 2 \<Longrightarrow> isContextLengthError e \<Longrightarrow>
   generateLoop env params r b sent =
     generateLoop env params (Suc r) (shrink b) (sent @ [buildRequest env params b])"
  by (subst generateLoop.simps) (simp add: Let_def maxRetries_def)

lemma loop_fail:
  "create env (length sent) (buildRequest env params b) = Inl e \<Longrightarrow> \<not> (r < 2 \<and> isContextLengthError e) \<Longrightarrow>
   generateLoop env params r b sent =
     \<lparr>outcome = Inl (wrapError e), requests = sent @ [buildRequest env params b],
      notifications = [ErrorNote (wrapError e)]\<rparr>"
  by (subst generateLoop.simps) (auto simp: Let_def maxRetries_def)


text \<open>
  C1: the calls of \<open>generateResponse\<close>, case by case on the answers of the vendor. A
  failure whose message has \<open>maximum context length\<close> is retried on attempts 0 and 1, the
  budget of each attempt being the floor of the double product of \<open>0.8\<close> and the budget
  \<open>b\<close> of the one before, which is \<open>\<lfloor>4b/5\<rfloor>\<close> for every \<open>b\<close> below \<open>2^50\<close>, from the input limit
  of the model or 16385. A failure without the phrase, or the failure of attempt 2, throws
  the error \<open>openai.generation.failed\<close> formatted with the message of the failure, reported
  once, and nothing more is sent. A success on any attempt returns the content of the
  first choice (the empty string when there is none) with the three token counters of the
  usage block, each absent when the vendor gives none.
\<close>

theorem generateResponse_retries:
  fixes env params
  shows
   "(\<forall>c. attemptAnswer env params 0 = Inr c \<longrightarrow>
        outcome (generateResponse env params) = Inr (toResponse c) \<and>
        requests (generateResponse env params) = map (attemptRequest env params) [0]) \<and>
    (\<forall>e0. attemptAnswer env params 0 = Inl e0 \<and> \<not> isContextLengthError e0 \<longrightarrow>
        outcome (generateResponse env params) = Inl (wrapError e0) \<and>
        notifications (generateResponse env params) = [ErrorNote (wrapError e0)] \<and>
        requests (generateResponse env params) = map (attemptRequest env params) [0]) \<and>
    (\<forall>e0 c. attemptAnswer env params 0 = Inl e0 \<and> isContextLengthError e0 \<and>
        attemptAnswer env params 1 = Inr c \<longrightarrow>
        outcome (generateResponse env params) = Inr (toResponse c) \<and>
        requests (generateResponse env params) = map (attemptRequest env params) [0, 1]) \<and>
    (\<forall>e0 e1. attemptAnswer env params 0 = Inl e0 \<and> isContextLengthError e0 \<and>
        attemptAnswer env params 1 = Inl e1 \<and> \<not> isContextLengthError e1 \<longrightarrow>
        outcome (generateResponse env params) = Inl (wrapError e1) \<and>
        notifications (generateResponse env params) = [ErrorNote (wrapError e1)] \<and>
        requests (generateResponse env params) = map (attemptRequest env params) [0, 1]) \<and>
    (\<forall>e0 e1 c. attemptAnswer env params 0 = Inl e0 \<and> isContextLengthError e0 \<and>
        attemptAnswer env params 1 = Inl e1 \<and> isContextLengthError e1 \<and>
        attemptAnswer env params 2 = Inr c \<longrightarrow>
        outcome (generateResponse env params) = Inr (toResponse c) \<and>
        requests (generateResponse env params) = map (attemptRequest env params) [0, 1, 2]) \<and>
    (\<forall>e0 e1 e2. attemptAnswer env params 0 = Inl e0 \<and> isContextLengthError e0 \<and>
        attemptAnswer env params 1 = Inl e1 \<and> isContextLengthError e1 \<and>
        attemptAnswer env params 2 = Inl e2 \<longrightarrow>
        outcome (generateResponse env params) = Inl (wrapError e2) \<and>
        notifications (generateResponse env params) = [ErrorNote (wrapError e2)] \<and>
        requests (generateResponse env params) = map (attemptRequest env params) [0, 1, 2]) \<and>
    (\<forall>i. req_user (attemptRequest env params i) = take (attemptBudget params i) (diff params) \<and>
         attemptBudget params (Suc i) = shrink (attemptBudget params i) \<and>
         (attemptBudget params i < 2 ^ 50 \<longrightarrow>
            attemptBudget params (Suc i) = attemptBudget params i * 4 div 5)) \<and>
    attemptBudget params 0 =
      (case model params of
         None \<Rightarrow> 16385
       | Some m \<Rightarrow> (case maxTokens m of
                     None \<Rightarrow> 16385
                   | Some t \<Rightarrow> if input_limit t = 0 then 16385 else input_limit t)) \<and>
    (\<forall>e. wrapError e =
       Format ''openai.generation.failed''
         [case err_message e of None \<Rightarrow> UndefinedValue | Some m \<Rightarrow> Literal m]) \<and>
    (\<forall>c. content (toResponse c) =
           (case choices c of [] \<Rightarrow> [] | None # _ \<Rightarrow> [] | Some s # _ \<Rightarrow> s) \<and>
         promptTokens (response_usage (toResponse c)) =
           (case usage c of None \<Rightarrow> None | Some u \<Rightarrow> prompt_tokens u) \<and>
         completionTokens (response_usage (toResponse c)) =
           (case usage c of None \<Rightarrow> None | Some u \<Rightarrow> completion_tokens u) \<and>
         totalTokens (response_usage (toResponse c)) =
           (case usage c of None \<Rightarrow> None | Some u \<Rightarrow> total_tokens u))"
proof -
  let ?b0 = "initialInputLength params"
  let ?b1 = "shrink ?b0"
  let ?b2 = "shrink ?b1"
  let ?r0 = "buildRequest env params ?b0"
  let ?r1 = "buildRequest env params ?b1"
  let ?r2 = "buildRequest env params ?b2"
  have b: "attemptBudget params 0 = ?b0" "attemptBudget params (Suc 0) = ?b1" "attemptBudget params 2 = ?b2"
    by (simp_all add: attemptBudget_def numeral_2_eq_2)
  have r: "attemptRequest env params 0 = ?r0" "attemptRequest env params (Suc 0) = ?r1"
    "attemptRequest env params 2 = ?r2"
    by (simp_all add: attemptRequest_def b)
  have a: "attemptAnswer env params 0 = create env 0 ?r0"
    "attemptAnswer env params (Suc 0) = create env (Suc 0) ?r1"
    "attemptAnswer env params 2 = create env 2 ?r2"
    by (simp_all add: attemptAnswer_def r)
  have r': "attemptRequest env params (Suc (Suc 0)) = ?r2"
    using r(3) by (simp add: numeral_2_eq_2)
  have a': "attemptAnswer env params (Suc (Suc 0)) = create env (Suc (Suc 0)) ?r2"
    using a(3) by (simp add: numeral_2_eq_2)
  have s0: "generateResponse env params = generateLoop env params 0 ?b0 []"
    by (simp add: generateResponse_def)
  have c1: "outcome (generateResponse env params) = Inr (toResponse c) \<and>
        requests (generateResponse env params) = map (attemptRequest env params) [0]"
    if "attemptAnswer env params 0 = Inr c" for c
    using that loop_success [of env "[]" params ?b0 c 0] by (simp add: a r s0)
  have c2: "outcome (generateResponse env params) = Inl (wrapError e0) \<and>
        notifications (generateResponse env params) = [ErrorNote (wrapError e0)] \<and>
        requests (generateResponse env params) = map (attemptRequest env params) [0]"
    if "attemptAnswer env params 0 = Inl e0" "\<not> isContextLengthError e0" for e0
    using that loop_fail [of env "[]" params ?b0 e0 0] by (simp add: a r s0)
  have s1: "generateResponse env params = generateLoop env params 1 ?b1 [?r0]"
    if "attemptAnswer env params 0 = Inl e0" "isContextLengthError e0" for e0
    using that loop_retry [of env "[]" params ?b0 e0 0] by (simp add: a s0)
  have c3: "outcome (generateResponse env params) = Inr (toResponse c) \<and>
        requests (generateResponse env params) = map (attemptRequest env params) [0, 1]"
    if "attemptAnswer env params 0 = Inl e0" "isContextLengthError e0"
      "attemptAnswer env params 1 = Inr c" for e0 c
    using that loop_success [of env "[?r0]" params ?b1 c 1] by (simp add: a r s1 [OF that(1,2)])
  have c4: "outcome (generateResponse env params) = Inl (wrapError e1) \<and>
        notifications (generateResponse env params) = [ErrorNote (wrapError e1)] \<and>
        requests (generateResponse env params) = map (attemptRequest env params) [0, 1]"
    if "attemptAnswer env params 0 = Inl e0" "isContextLengthError e0"
      "attemptAnswer env params 1 = Inl e1" "\<not> isContextLengthError e1" for e0 e1
    using that loop_fail [of env "[?r0]" params ?b1 e1 1] by (simp add: a r s1 [OF that(1,2)])
  have s2: "generateResponse env params = generateLoop env params 2 ?b2 [?r0, ?r1]"
    if "attemptAnswer env params 0 = Inl e0" "isContextLengthError e0"
      "attemptAnswer env params 1 = Inl e1" "isContextLengthError e1" for e0 e1
    using that loop_retry [of env "[?r0]" params ?b1 e1 1]
    by (simp add: a s1 [OF that(1,2)] numeral_2_eq_2)
  have c5: "outcome (generateResponse env params) = Inr (toResponse c) \<and>
        requests (generateResponse env params) = map (attemptRequest env params) [0, 1, 2]"
    if "attemptAnswer env params 0 = Inl e0" "isContextLengthError e0"
      "attemptAnswer env params 1 = Inl e1" "isContextLengthError e1"
      "attemptAnswer env params 2 = Inr c" for e0 e1 c
    using that loop_success [of env "[?r0, ?r1]" params ?b2 c 2]
    by (simp add: a a' r r' s2 [OF that(1,2,3,4)] numeral_2_eq_2)
  have c6: "outcome (generateResponse env params) = Inl (wrapError e2) \<and>
        notifications (generateResponse env params) = [ErrorNote (wrapError e2)] \<and>
        requests (generateResponse env params) = map (attemptRequest env params) [0, 1, 2]"
    if "attemptAnswer env params 0 = Inl e0" "isContextLengthError e0"
      "attemptAnswer env params 1 = Inl e1" "isContextLengthError e1"
      "attemptAnswer env params 2 = Inl e2" for e0 e1 e2
    using that loop_fail [of env "[?r0, ?r1]" params ?b2 e2 2]
    by (simp add: a a' r r' s2 [OF that(1,2,3,4)] numeral_2_eq_2)
  have c7: "req_user (attemptRequest env params i) = take (attemptBudget params i) (diff params) \<and>
         attemptBudget params (Suc i) = shrink (attemptBudget params i) \<and>
         (attemptBudget params i < 2 ^ 50 \<longrightarrow>
            attemptBudget params (Suc i) = attemptBudget params i * 4 div 5)" for i
    by (simp add: attemptRequest_def buildRequest_def attemptBudget_Suc shrink_exact)
  have c8: "attemptBudget params 0 =
      (case model params of
         None \<Rightarrow> 16385
       | Some m \<Rightarrow> (case maxTokens m of
                     None \<Rightarrow> 16385
                   | Some t \<Rightarrow> if input_limit t = 0 then 16385 else input_limit t))"
    by (simp add: attemptBudget_0 initialInputLength_def)
  have c9: "wrapError e =
       Format ''openai.generation.failed''
         [case err_message e of None \<Rightarrow> UndefinedValue | Some m \<Rightarrow> Literal m]" for e
    by (simp add: wrapError_def)
  have c10: "content (toResponse c) =
           (case choices c of [] \<Rightarrow> [] | None # _ \<Rightarrow> [] | Some s # _ \<Rightarrow> s) \<and>
         promptTokens (response_usage (toResponse c)) =
           (case usage c of None \<Rightarrow> None | Some u \<Rightarrow> prompt_tokens u) \<and>
         completionTokens (response_usage (toResponse c)) =
           (case usage c of None \<Rightarrow> None | Some u \<Rightarrow> completion_tokens u) \<and>
         totalTokens (response_usage (toResponse c)) =
           (case usage c of None \<Rightarrow> None | Some u \<Rightarrow> total_tokens u)" for c
    by (simp add: toResponse_def split: list.splits option.splits)
  from c1 c2 c3 c4 c5 c6 c7 c8 c9 c10 show ?thesis by blast
qed


lemma example_answers:
  "attemptAnswer example_openai example_params 0 =
     Inl \<lparr>err_message = Some ''This request exceeds the maximum context length of 8 tokens.''\<rparr>"
  "attemptAnswer example_openai example_params 1 =
     Inl \<lparr>err_message = Some ''This request exceeds the maximum context length of 8 tokens.''\<rparr>"
  "attemptAnswer example_openai example_params 2 =
     Inr \<lparr>choices = [Some ''feat: add parser''],
          usage = Some \<lparr>prompt_tokens = Some 12, completion_tokens = Some 4, total_tokens = Some 16\<rparr>\<rparr>"
  by (simp_all add: attemptAnswer_def example_openai_def)

lemma example_context_length:
  "isContextLengthError \<lparr>err_message = Some ''This request exceeds the maximum context length of 8 tokens.''\<rparr>"
  by (simp add: isContextLengthError_def startsWith_def)

lemma example_initial: "attemptBudget example_params 0 = 10"
  by (simp add: attemptBudget_def example_params_def initialInputLength_def)

theorem generateResponse_retries_witness:
  "isContextLengthError \<lparr>err_message = Some ''This request exceeds the maximum context length of 8 tokens.''\<rparr> \<and>
   attemptAnswer example_openai example_params 0 =
     Inl \<lparr>err_message = Some ''This request exceeds the maximum context length of 8 tokens.''\<rparr> \<and>
   attemptAnswer example_openai example_params 1 =
     Inl \<lparr>err_message = Some ''This request exceeds the maximum context length of 8 tokens.''\<rparr> \<and>
   attemptAnswer example_openai example_params 2 =
     Inr \<lparr>choices = [Some ''feat: add parser''],
          usage = Some \<lparr>prompt_tokens = Some 12, completion_tokens = Some 4, total_tokens = Some 16\<rparr>\<rparr> \<and>
   attemptBudget example_params 0 < 2 ^ 50 \<and> attemptBudget example_params (Suc 0) < 2 ^ 50 \<and>
   (\<exists>r. outcome (generateResponse example_openai example_params) = Inr r \<and>
        content r = ''feat: add parser'' \<and>
        promptTokens (response_usage r) = Some 12 \<and>
        completionTokens (response_usage r) = Some 4 \<and>
        totalTokens (response_usage r) = Some 16) \<and>
   map req_user (requests (generateResponse example_openai example_params)) =
     [''+012345678'', ''+0123456'', ''+01234'']"
proof -
  let ?e = "\<lparr>err_message = Some ''This request exceeds the maximum context length of 8 tokens.''\<rparr>"
  let ?c = "\<lparr>choices = [Some ''feat: add parser''],
          usage = Some \<lparr>prompt_tokens = Some 12, completion_tokens = Some 4, total_tokens = Some 16\<rparr>\<rparr>"
  note t = generateResponse_retries [of example_openai example_params]
  from t have "attemptAnswer example_openai example_params 0 = Inl ?e \<and> isContextLengthError ?e \<and>
        attemptAnswer example_openai example_params 1 = Inl ?e \<and> isContextLengthError ?e \<and>
        attemptAnswer example_openai example_params 2 = Inr ?c \<longrightarrow>
        outcome (generateResponse example_openai example_params) = Inr (toResponse ?c) \<and>
        requests (generateResponse example_openai example_params) =
          map (attemptRequest example_openai example_params) [0, 1, 2]"
    by blast
  then have o: "outcome (generateResponse example_openai example_params) = Inr (toResponse ?c)"
    and r: "requests (generateResponse example_openai example_params) =
          map (attemptRequest example_openai example_params) [0, 1, 2]"
    using example_answers example_context_length by blast+
  from t have u: "req_user (attemptRequest example_openai example_params i) =
      take (attemptBudget example_params i) (diff example_params)" for i
    by blast
  from t have law: "attemptBudget example_params i < 2 ^ 50 \<Longrightarrow>
      attemptBudget example_params (Suc i) = attemptBudget example_params i * 4 div 5" for i
    by blast
  have b0: "attemptBudget example_params 0 = 10" by (rule example_initial)
  have b1: "attemptBudget example_params (Suc 0) = 8" using law [of 0] by (simp add: b0)
  have "attemptBudget example_params (Suc (Suc 0)) = 6" using law [of "Suc 0"] by (simp add: b1)
  then have b2: "attemptBudget example_params 2 = 6" by (simp only: numeral_2_eq_2)
  from t have resp: "content (toResponse ?c) =
           (case choices ?c of [] \<Rightarrow> [] | None # _ \<Rightarrow> [] | Some s # _ \<Rightarrow> s) \<and>
         promptTokens (response_usage (toResponse ?c)) =
           (case usage ?c of None \<Rightarrow> None | Some u \<Rightarrow> prompt_tokens u) \<and>
         completionTokens (response_usage (toResponse ?c)) =
           (case usage ?c of None \<Rightarrow> None | Some u \<Rightarrow> completion_tokens u) \<and>
         totalTokens (response_usage (toResponse ?c)) =
           (case usage ?c of None \<Rightarrow> None | Some u \<Rightarrow> total_tokens u)"
    by blast
  have out: "\<exists>r. outcome (generateResponse example_openai example_params) = Inr r \<and>
        content r = ''feat: add parser'' \<and>
        promptTokens (response_usage r) = Some 12 \<and>
        completionTokens (response_usage r) = Some 4 \<and>
        totalTokens (response_usage r) = Some 16"
    using o resp by (intro exI [of _ "toResponse ?c"]) simp
  have reqs: "map req_user (requests (generateResponse example_openai example_params)) =
     [''+012345678'', ''+0123456'', ''+01234'']"
    using b0 b1 b2 by (simp add: r u) (simp add: example_params_def)
  have small: "attemptBudget example_params 0 < 2 ^ 50" "attemptBudget example_params (Suc 0) < 2 ^ 50"
    by (simp_all add: b0 b1)
  from out reqs small example_answers example_context_length show ?thesis by blast
qed

section \<open>The review batch\<close>

lemma update_fresh: "k \<notin> fst ` set al \<Longrightarrow> AList.update k v al = al @ [(k, v)]"
  by (induction al) auto

lemma map_filter_append: "List.map_filter f (xs @ ys) = List.map_filter f xs @ List.map_filter f ys"
  by (simp add: List.map_filter_def)

lemma diffEntry_Some:
  "diffEntry env r = Some d \<longleftrightarrow>
     (\<exists>s. scmGetDiff env r = Inr (Some s) \<and> s \<noteq> [] \<and> d = (fsPath env r, s))"
  by (cases "scmGetDiff env r") (auto simp: diffEntry_def split: option.splits)

lemma reviewEntry_Some:
  "reviewEntry env d = Some e \<longleftrightarrow>
     (\<exists>review c. generateCodeReview env = Some review \<and> review d = Inr (Some c) \<and> c \<noteq> [] \<and>
        e = (fst d, c))"
proof (cases "generateCodeReview env")
  case None
  then show ?thesis by (simp add: reviewEntry_def)
next
  case (Some review)
  then show ?thesis
    by (cases "review d") (auto simp: reviewEntry_def split: option.splits)
qed

lemma fold_update:
  assumes step: "\<And>m es x. step (m, es) x =
        ((case f x of None \<Rightarrow> m | Some kv \<Rightarrow> AList.update (fst kv) (snd kv) m), es @ g x)"
    and key: "\<And>x kv. f x = Some kv \<Longrightarrow> fst kv = key x"
  shows "distinct (map key xs) \<Longrightarrow> fst ` set m \<inter> key ` set xs = {} \<Longrightarrow>
         foldl step (m, es) xs = (m @ List.map_filter f xs, es @ concat (map g xs))"
proof (induction xs arbitrary: m es)
  case Nil
  then show ?case by simp
next
  case (Cons x xs)
  have fresh: "key x \<notin> fst ` set m" using Cons.prems(2) by auto
  have d: "distinct (map key xs)" and n: "key x \<notin> key ` set xs"
    using Cons.prems(1) by simp_all
  have rest: "fst ` set m \<inter> key ` set xs = {}" using Cons.prems(2) by auto
  show ?case
  proof (cases "f x")
    case None
    then have "step (m, es) x = (m, es @ g x)" by (simp add: step)
    then have "foldl step (m, es) (x # xs) = foldl step (m, es @ g x) xs" by simp
    also have "\<dots> = (m @ List.map_filter f xs, (es @ g x) @ concat (map g xs))"
      by (rule Cons.IH [OF d rest])
    finally show ?thesis using None by simp
  next
    case (Some kv)
    then have k: "fst kv = key x" by (rule key)
    have "AList.update (key x) (snd kv) m = m @ [(key x, snd kv)]"
      by (rule update_fresh [OF fresh])
    also have "(key x, snd kv) = kv" using k by (cases kv) simp
    finally have "step (m, es) x = (m @ [kv], es @ g x)"
      using Some by (simp add: step k)
    then have "foldl step (m, es) (x # xs) = foldl step (m @ [kv], es @ g x) xs" by simp
    also have "\<dots> = ((m @ [kv]) @ List.map_filter f xs, (es @ g x) @ concat (map g xs))"
    proof (rule Cons.IH [OF d])
      show "fst ` set (m @ [kv]) \<inter> key ` set xs = {}"
        using rest n by (simp add: k)
    qed
    finally show ?thesis using Some by simp
  qed
qed

lemma collect_fold:
  assumes "distinct (map (fsPath env) rs)"
  shows "foldl (collectDiff env) ([], []) rs = (List.map_filter (diffEntry env) rs, diffLog env rs)"
proof -
  have "foldl (collectDiff env) ([], []) rs =
      ([] @ List.map_filter (diffEntry env) rs,
       [] @ concat (map (\<lambda>r. case scmGetDiff env r of
                         Inl error \<Rightarrow> [ConsoleError (''Failed to get diff for '' @ fsPath env r @ '':'') error]
                       | Inr _ \<Rightarrow> []) rs))"
  proof (rule fold_update [where key = "fsPath env"])
    show "distinct (map (fsPath env) rs)" by (rule assms)
    show "fst ` set [] \<inter> fsPath env ` set rs = {}" by simp
    show "fst kv = fsPath env x" if "diffEntry env x = Some kv" for x kv
      using that by (auto simp: diffEntry_def split: sum.splits option.splits if_splits)
    show "collectDiff env (m, es) x =
        ((case diffEntry env x of None \<Rightarrow> m | Some kv \<Rightarrow> AList.update (fst kv) (snd kv) m),
         es @ (case scmGetDiff env x of
                 Inl error \<Rightarrow> [ConsoleError (''Failed to get diff for '' @ fsPath env x @ '':'') error]
               | Inr _ \<Rightarrow> []))" for m es x
      by (simp add: collectDiff_def diffEntry_def split: sum.splits option.splits)
  qed
  then show ?thesis by (simp add: diffLog_def)
qed

lemma distinct_collected:
  "distinct (map (fsPath env) rs) \<Longrightarrow> distinct (map fst (List.map_filter (diffEntry env) rs))"
proof (induction rs)
  case Nil
  then show ?case by simp
next
  case (Cons r rs)
  have sub: "fst ` set (List.map_filter (diffEntry env) rs) \<subseteq> fsPath env ` set rs"
  proof
    fix k assume "k \<in> fst ` set (List.map_filter (diffEntry env) rs)"
    then obtain e where e: "e \<in> set (List.map_filter (diffEntry env) rs)" "k = fst e" by auto
    then obtain x where "x \<in> set rs" "diffEntry env x = Some e"
      by (auto simp: List.map_filter_def)
    then show "k \<in> fsPath env ` set rs"
      using e by (auto simp: diffEntry_Some)
  qed
  show ?case
  proof (cases "diffEntry env r")
    case None
    then show ?thesis using Cons by simp
  next
    case (Some e)
    then have "fst e = fsPath env r" by (auto simp: diffEntry_Some)
    then show ?thesis using Cons Some sub by auto
  qed
qed

lemma distinct_map_mset: "mset xs = mset ys \<Longrightarrow> distinct (map f xs) \<Longrightarrow> distinct (map f ys)"
proof -
  assume "mset xs = mset ys" and d: "distinct (map f xs)"
  then have "mset (map f xs) = mset (map f ys)" by simp
  from mset_eq_imp_distinct_iff [OF this] show "distinct (map f ys)" using d by blast
qed

lemma review_fold:
  assumes "distinct (map fst ds)"
  shows "foldl (reviewFile env) ([], es) ds = (List.map_filter (reviewEntry env) ds, es @ reviewLog env ds)"
proof -
  have "foldl (reviewFile env) ([], es) ds =
      ([] @ List.map_filter (reviewEntry env) ds,
       es @ concat (map (\<lambda>entry.
        case generateCodeReview env of
          None \<Rightarrow> []
        | Some review \<Rightarrow>
            (case review entry of
               Inl error \<Rightarrow>
                 [Notify (Warn (Format ''review.file.failed'' [Literal (path_basename env (fst entry))])),
                  ConsoleError (''Failed to review '' @ fst entry @ '':'') error]
             | Inr _ \<Rightarrow> [])) ds))"
  proof (rule fold_update [where key = fst])
    show "distinct (map fst ds)" by (rule assms)
    show "fst ` set [] \<inter> fst ` set ds = {}" by simp
    show "fst kv = fst x" if "reviewEntry env x = Some kv" for x kv
      using that by (auto simp: reviewEntry_def split: sum.splits option.splits if_splits)
    show "reviewFile env (m, es) x =
        ((case reviewEntry env x of None \<Rightarrow> m | Some kv \<Rightarrow> AList.update (fst kv) (snd kv) m),
         es @ (case generateCodeReview env of
          None \<Rightarrow> []
        | Some review \<Rightarrow>
            (case review x of
               Inl error \<Rightarrow>
                 [Notify (Warn (Format ''review.file.failed'' [Literal (path_basename env (fst x))])),
                  ConsoleError (''Failed to review '' @ fst x @ '':'') error]
             | Inr _ \<Rightarrow> [])))" for m es x
      by (simp add: reviewFile_def reviewEntry_def Let_def split: sum.splits option.splits)
  qed
  then show ?thesis by (simp add: reviewLog_def)
qed

lemma execute_effects:
  assumes "handleConfiguration env" "detectSCMProvider env" "getModelAndUpdateConfiguration env = None"
    and "resources \<noteq> []" and "distinct (map (fsPath env) resources)"
    and "\<forall>rs. mset (diffOrder env rs) = mset rs" and "\<forall>ds. mset (reviewOrder env ds) = mset ds"
  shows "execute env resources =
     diffLog env (diffOrder env resources) @
     (if collected env resources = [] then [Notify (Warn (GetMessage ''no.changes.found''))]
      else reviewLog env (reviewOrder env (collected env resources)) @
        (if reviewed env resources = [] then [Notify (ErrorNote (GetMessage ''review.all.failed''))]
         else [ShowReviewResults (reviewed env resources),
               Notify (Info (Format ''review.complete.count'' [Number (length (reviewed env resources))]))]))"
proof -
  have d1: "distinct (map (fsPath env) (diffOrder env resources))"
    using distinct_map_mset [of resources "diffOrder env resources" "fsPath env"] assms(5,6) by simp
  have d2: "distinct (map fst (collected env resources))"
    unfolding collected_def by (rule distinct_collected [OF d1])
  have d3: "distinct (map fst (reviewOrder env (collected env resources)))"
    using distinct_map_mset [of "collected env resources" "reviewOrder env (collected env resources)" fst]
      assms(7) d2 by simp
  have c: "foldl (collectDiff env) ([], []) (diffOrder env resources) =
      (collected env resources, diffLog env (diffOrder env resources))"
    unfolding collected_def by (rule collect_fold [OF d1])
  have ne: "diffOrder env resources \<noteq> []"
    using assms(4,6) by (metis mset_zero_iff)
  show ?thesis
    using assms(1,2,3,4)
    by (simp add: execute_def c review_fold [OF d3] reviewed_def)
qed

lemma example_collected:
  "collected example_review [''a'', ''b'', ''c'', ''d''] =
     [(''/w/d.ts'', ''+x''), (''/w/c.ts'', ''+x''), (''/w/a.ts'', ''+x'')]"
  by (simp add: collected_def diffEntry_def example_review_def)

lemma example_review_order: "reviewOrder example_review ds = ds"
  by (simp add: example_review_def)

lemma example_reviewed: "reviewed example_review [''a'', ''b'', ''c'', ''d''] = [(''/w/a.ts'', ''looks fine'')]"
  unfolding reviewed_def example_collected example_review_order
  by (simp add: reviewEntry_def example_review_def)

text \<open>
  C8, as stated, fails on three files where the diff call of the second throws and the
  review of the third returns without content: the panel shows the first file only,
  though diff and review of the third both returned, and no warning is issued.
\<close>

theorem review_batch_counterexample:
  "scmGetDiff example_review ''b'' = Inl ''svn: E155007'' \<and>
   scmGetDiff example_review ''c'' = Inr (Some ''+x'') \<and>
   generateCodeReview example_review = Some (\<lambda>entry.
        if fst entry = ''/w/c.ts'' then Inr None
        else if fst entry = ''/w/d.ts'' then Inl ''timeout''
        else Inr (Some ''looks fine'')) \<and>
   execute example_review [''a'', ''b'', ''c''] =
     [ConsoleError ''Failed to get diff for /w/b.ts:'' ''svn: E155007'',
      ShowReviewResults [(''/w/a.ts'', ''looks fine'')],
      Notify (Info (Format ''review.complete.count'' [Number 1]))]"
  by (simp add: example_review_def execute_def collectDiff_def reviewFile_def)

text \<open>
  C8, amended: for selected files with distinct paths, once configuration, provider and
  model are there, the panel is shown when at least one review was produced, and it holds
  exactly the files whose diff call returned a non-empty diff and whose review call
  returned a non-empty content; each file whose review call throws gives one warning
  \<open>review.file.failed\<close> with its base name, in the order in which the review calls finish;
  and the error \<open>review.all.failed\<close> is reported exactly when some diff was collected and
  no review was produced. No call that throws stops the others. The order in which the
  calls of a round finish is any rearrangement of the calls started.
\<close>

theorem review_batch_isolated:
  assumes "handleConfiguration env" "detectSCMProvider env" "getModelAndUpdateConfiguration env = None"
    and "resources \<noteq> []" and "distinct (map (fsPath env) resources)"
    and "\<forall>rs. mset (diffOrder env rs) = mset rs" and "\<forall>ds. mset (reviewOrder env ds) = mset ds"
  shows "shownResults (execute env resources) =
           (if reviewed env resources = [] then [] else [reviewed env resources]) \<and>
         set (map fst (reviewed env resources)) =
           {fsPath env r | r. r \<in> set resources \<and>
              (\<exists>d c review. scmGetDiff env r = Inr (Some d) \<and> d \<noteq> [] \<and>
                 generateCodeReview env = Some review \<and>
                 review (fsPath env r, d) = Inr (Some c) \<and> c \<noteq> [])} \<and>
         reviewFailedWarnings (execute env resources) =
           map (\<lambda>entry. path_basename env (fst entry))
             (filter (reviewThrows env) (reviewOrder env (collected env resources))) \<and>
         errorNotes (execute env resources) =
           (if collected env resources \<noteq> [] \<and> reviewed env resources = []
            then [GetMessage ''review.all.failed''] else [])"
proof -
  note e = execute_effects [OF assms]
  have s1: "set (diffOrder env resources) = set resources"
    using assms(6) by (metis mset_eq_setD)
  have s0: "reviewOrder env [] = []"
    using assms(7) by (metis mset_zero_iff)
  have s2: "set (reviewOrder env (collected env resources)) = set (collected env resources)"
    using assms(7) by (metis mset_eq_setD)
  have dl: "shownResults (diffLog env rs) = []" "reviewFailedWarnings (diffLog env rs) = []"
    "errorNotes (diffLog env rs) = []" for rs
    by (induction rs)
       (simp_all add: diffLog_def shownResults_def reviewFailedWarnings_def errorNotes_def
          map_filter_append split: sum.splits)
  have rl: "shownResults (reviewLog env ds) = []" "errorNotes (reviewLog env ds) = []"
    "reviewFailedWarnings (reviewLog env ds) =
       map (\<lambda>entry. path_basename env (fst entry)) (filter (reviewThrows env) ds)" for ds
    by (induction ds)
       (simp_all add: reviewLog_def shownResults_def reviewFailedWarnings_def errorNotes_def
          reviewThrows_def map_filter_append split: sum.splits option.splits)
  have ap: "shownResults (a @ b) = shownResults a @ shownResults b"
    "reviewFailedWarnings (a @ b) = reviewFailedWarnings a @ reviewFailedWarnings b"
    "errorNotes (a @ b) = errorNotes a @ errorNotes b" for a b :: "'b review_effect list"
    by (simp_all add: shownResults_def reviewFailedWarnings_def errorNotes_def map_filter_append)
  have sg: "shownResults [] = []" "shownResults (Notify n # xs) = shownResults xs"
    "shownResults (ShowReviewResults r # xs) = r # shownResults xs"
    "errorNotes [] = []" "errorNotes (Notify (ErrorNote m) # xs) = m # errorNotes xs"
    "errorNotes (Notify (Warn m) # xs) = errorNotes xs"
    "errorNotes (Notify (Info m) # xs) = errorNotes xs"
    "errorNotes (ShowReviewResults r # xs) = errorNotes xs"
    "reviewFailedWarnings [] = []"
    "reviewFailedWarnings (Notify (ErrorNote m) # xs) = reviewFailedWarnings xs"
    "reviewFailedWarnings (Notify (Warn (GetMessage k)) # xs) = reviewFailedWarnings xs"
    "reviewFailedWarnings (Notify (Info m) # xs) = reviewFailedWarnings xs"
    "reviewFailedWarnings (ShowReviewResults r # xs) = reviewFailedWarnings xs"
    for n m k r and xs :: "'b review_effect list"
    by (simp_all add: shownResults_def reviewFailedWarnings_def errorNotes_def)
  have c1: "shownResults (execute env resources) =
           (if reviewed env resources = [] then [] else [reviewed env resources])"
    using s0 by (simp add: e ap dl rl sg) (simp add: reviewed_def)
  have c3: "reviewFailedWarnings (execute env resources) =
           map (\<lambda>entry. path_basename env (fst entry))
             (filter (reviewThrows env) (reviewOrder env (collected env resources)))"
    using s0 by (simp add: e ap dl rl sg)
  have c4: "errorNotes (execute env resources) =
           (if collected env resources \<noteq> [] \<and> reviewed env resources = []
            then [GetMessage ''review.all.failed''] else [])"
    by (simp add: e ap dl rl sg)
  have c2: "set (map fst (reviewed env resources)) =
           {fsPath env r | r. r \<in> set resources \<and>
              (\<exists>d c review. scmGetDiff env r = Inr (Some d) \<and> d \<noteq> [] \<and>
                 generateCodeReview env = Some review \<and>
                 review (fsPath env r, d) = Inr (Some c) \<and> c \<noteq> [])}"
    (is "?L = ?R")
  proof (rule set_eqI)
    fix p
    have "p \<in> ?L \<longleftrightarrow> (\<exists>d \<in> set (collected env resources). \<exists>e. reviewEntry env d = Some e \<and> fst e = p)"
      by (force simp: reviewed_def List.map_filter_def s2)
    also have "\<dots> \<longleftrightarrow> (\<exists>r \<in> set resources. \<exists>d e. diffEntry env r = Some d \<and> reviewEntry env d = Some e \<and> fst e = p)"
      by (force simp: collected_def List.map_filter_def s1)
    also have "\<dots> \<longleftrightarrow> p \<in> ?R"
      unfolding diffEntry_Some reviewEntry_Some by fastforce
    finally show "p \<in> ?L \<longleftrightarrow> p \<in> ?R" .
  qed
  from c1 c2 c3 c4 show ?thesis by blast
qed


theorem review_batch_isolated_witness:
  "handleConfiguration example_review \<and> detectSCMProvider example_review \<and>
   getModelAndUpdateConfiguration example_review = None \<and>
   distinct (map (fsPath example_review) [''a'', ''b'', ''c'', ''d'']) \<and>
   diffOrder example_review [''a'', ''b'', ''c'', ''d''] = [''d'', ''c'', ''b'', ''a''] \<and>
   shownResults (execute example_review [''a'', ''b'', ''c'', ''d'']) = [[(''/w/a.ts'', ''looks fine'')]] \<and>
   reviewFailedWarnings (execute example_review [''a'', ''b'', ''c'', ''d'']) = [''d.ts''] \<and>
   errorNotes (execute example_review [''a'', ''b'', ''c'', ''d'']) = []"
proof -
  have h: "handleConfiguration example_review" "detectSCMProvider example_review"
    "getModelAndUpdateConfiguration example_review = None"
    "[''a'', ''b'', ''c'', ''d''] \<noteq> ([] :: string list)"
    "distinct (map (fsPath example_review) [''a'', ''b'', ''c'', ''d''])"
    "\<forall>rs. mset (diffOrder example_review rs) = mset rs"
    "\<forall>ds. mset (reviewOrder example_review ds) = mset ds"
    by (simp_all add: example_review_def)
  have o: "diffOrder example_review [''a'', ''b'', ''c'', ''d''] = [''d'', ''c'', ''b'', ''a'']"
    by (simp add: example_review_def)
  have t: "filter (reviewThrows example_review)
      [(''/w/d.ts'', ''+x''), (''/w/c.ts'', ''+x''), (''/w/a.ts'', ''+x'')] = [(''/w/d.ts'', ''+x'')]"
    by (simp add: reviewThrows_def example_review_def)
  have b: "path_basename example_review ''/w/d.ts'' = ''d.ts''"
    by (simp add: example_review_def)
  note r = review_batch_isolated
    [OF h, unfolded example_collected example_reviewed example_review_order t]
  from r show ?thesis
    using h(1,2,3,5) o by (simp add: b)
qed

section \<open>Idempotence of the simplifier\<close>

lemma is_ws_space [simp]: "is_ws CHR '' ''"
  by (simp add: is_ws_def)

lemma is_ws_dot [simp]: "\<not> is_ws CHR ''.''"
  by (simp add: is_ws_def)

lemma single_spaced_last: "single_spaced b \<Longrightarrow> b \<noteq> [] \<Longrightarrow> \<not> is_ws (last b)"
  by (induction b rule: single_spaced.induct) auto

lemma collapse_single_spaced: "single_spaced b \<Longrightarrow> collapse_ws b = b"
  by (induction b rule: single_spaced.induct) auto

lemma collapse_hd: "\<not> is_ws c \<Longrightarrow> collapse_ws (c # cs) = c # collapse_ws cs"
  by simp

lemma collapse_Nil_iff [simp]: "collapse_ws s = [] \<longleftrightarrow> s = []"
  by (cases s) auto

lemma dropWhile_last: "dropWhile P xs \<noteq> [] \<Longrightarrow> last (dropWhile P xs) = last xs"
  by (induction xs) (auto split: if_splits)

lemma single_spaced_collapse:
  "s = [] \<or> \<not> is_ws (last s) \<Longrightarrow> single_spaced (collapse_ws s)"
proof (induction s rule: collapse_ws.induct)
  case 1
  then show ?case by simp
next
  case (2 c cs)
  show ?case
  proof (cases "is_ws c")
    case True
    with 2 have ne: "cs \<noteq> []" by auto
    with 2 have l: "\<not> is_ws (last cs)" by auto
    have dne: "dropWhile is_ws cs \<noteq> []"
      using ne l by (metis dropWhile_eq_Nil_conv last_in_set)
    then obtain d ds where d: "dropWhile is_ws cs = d # ds" by (cases "dropWhile is_ws cs") auto
    then have nd: "\<not> is_ws d" using hd_dropWhile [OF dne] by simp
    have "\<not> is_ws (last (dropWhile is_ws cs))"
      using dropWhile_last [OF dne] l by simp
    with 2 True have "single_spaced (collapse_ws (dropWhile is_ws cs))" by simp
    then show ?thesis using True d nd by simp
  next
    case False
    show ?thesis
    proof (cases cs)
      case Nil
      then show ?thesis using False by simp
    next
      case (Cons e es)
      with 2 False have "single_spaced (collapse_ws cs)" by auto
      moreover have "cs \<noteq> []" using Cons by simp
      then have "collapse_ws cs \<noteq> []" using collapse_Nil_iff [of cs] by blast
      then obtain x xs where "collapse_ws cs = x # xs"
        by (cases "collapse_ws cs") simp_all
      ultimately show ?thesis using False by simp
    qed
  qed
qed

lemma single_spaced_take_append:
  "single_spaced b \<Longrightarrow> single_spaced s \<Longrightarrow> s \<noteq> [] \<Longrightarrow> \<not> is_ws (hd s) \<Longrightarrow>
   single_spaced (take i b @ s)"
proof (induction b arbitrary: i rule: single_spaced.induct)
  case 1
  then show ?case by simp
next
  case (2 c)
  then show ?case by (cases i; cases s) auto
next
  case (3 c d cs)
  show ?case
  proof (cases i)
    case 0
    then show ?thesis using 3 by simp
  next
    case (Suc j)
    have ih: "single_spaced (take j (d # cs) @ s)" using 3 by simp
    show ?thesis
    proof (cases j)
      case 0
      then show ?thesis using 3 Suc by (cases s) auto
    next
      case (Suc j')
      then show ?thesis using 3 ih \<open>i = Suc j\<close> by auto
    qed
  qed
qed


lemma trim_fixed: "b = [] \<or> (\<not> is_ws (hd b) \<and> \<not> is_ws (last b)) \<Longrightarrow> trim b = b"
proof (cases b)
  case Nil
  then show ?thesis by (simp add: trim_def)
next
  case (Cons a as)
  assume "b = [] \<or> (\<not> is_ws (hd b) \<and> \<not> is_ws (last b))"
  with Cons have h: "\<not> is_ws a" and l: "\<not> is_ws (last b)" by auto
  have "dropWhile is_ws b = b" using Cons h by simp
  moreover have "dropWhile is_ws (rev b) = rev b"
  proof -
    obtain r rs where r: "rev b = r # rs" using Cons by (cases "rev b") simp_all
    have "hd (rev b) = last b" by (rule hd_rev)
    with r have "r = last b" by simp
    with l have "dropWhile is_ws (r # rs) = r # rs" by simp
    then show ?thesis by (simp only: r)
  qed
  ultimately show ?thesis by (simp add: trim_def)
qed

lemma trim_last: "trim y = [] \<or> \<not> is_ws (last (trim y))"
proof (cases "trim y = []")
  case True
  then show ?thesis by simp
next
  case False
  then have ne: "dropWhile is_ws (rev (dropWhile is_ws y)) \<noteq> []" by (simp add: trim_def)
  have "last (trim y) = hd (dropWhile is_ws (rev (dropWhile is_ws y)))"
    using ne by (simp add: trim_def last_rev)
  then show ?thesis using hd_dropWhile [OF ne] by simp
qed

lemma trim_hd: "\<not> is_ws a \<Longrightarrow> \<exists>ts. trim (a # ys) = a # ts"
proof -
  assume a: "\<not> is_ws a"
  have "dropWhile is_ws (rev ys @ [a]) = dropWhile is_ws (rev ys) @ [a] \<or>
        dropWhile is_ws (rev ys @ [a]) = [a]"
    using a by (simp add: dropWhile_append)
  then have "\<exists>zs. dropWhile is_ws (rev ys @ [a]) = zs @ [a]" by auto
  then obtain zs where "dropWhile is_ws (rev ys @ [a]) = zs @ [a]" ..
  then show ?thesis using a by (simp add: trim_def)
qed

lemma normal_body_compressed: "normal_body (collapse_ws (trim (dropWhile is_ws x)))"
proof (cases "dropWhile is_ws x")
  case Nil
  have "trim (dropWhile is_ws x) = []" unfolding Nil by (simp add: trim_def)
  then show ?thesis by (simp add: normal_body_def)
next
  case (Cons a ys)
  have "dropWhile is_ws x \<noteq> []" using Cons by simp
  from hd_dropWhile [OF this] have a: "\<not> is_ws a" unfolding Cons by simp
  obtain ts where t: "trim (a # ys) = a # ts" using trim_hd [OF a] ..
  have "single_spaced (collapse_ws (trim (a # ys)))"
    by (rule single_spaced_collapse) (rule trim_last)
  then show ?thesis unfolding Cons normal_body_def t using a by simp
qed

lemma compressLine_eq:
  "line \<noteq> [] \<Longrightarrow>
   compressLine line =
     (if is_marker (hd line)
      then hd line # replicate (min 2 (length (takeWhile is_ws (tl line)))) CHR '' ''
             @ collapse_ws (trim (dropWhile is_ws (tl line)))
      else replicate (min 2 (length (takeWhile is_ws line))) CHR '' ''
             @ collapse_ws (trim (dropWhile is_ws line)))"
  by (simp add: compressLine_def Let_def is_marker_def dropWhile_eq_drop drop_Suc)

lemma normal_line_compressLine: "normal_line (compressLine l)"
proof (cases l)
  case Nil
  then show ?thesis by (simp add: compressLine_def normal_line_def)
next
  case (Cons a as)
  show ?thesis
  proof (cases "is_marker a")
    case True
    have "compressLine l = a # replicate (min 2 (length (takeWhile is_ws as))) CHR '' ''
             @ collapse_ws (trim (dropWhile is_ws as))"
      using Cons True by (simp add: compressLine_eq)
    then have "\<exists>q k b. compressLine l = q # replicate k CHR '' '' @ b \<and> is_marker q \<and> k \<le> 2 \<and>
        normal_body b"
      using True normal_body_compressed [of as] min.cobounded1 [of 2 "length (takeWhile is_ws as)"]
      by blast
    then show ?thesis unfolding normal_line_def by blast
  next
    case False
    show ?thesis
    proof (cases "is_ws a")
      case ws: True
      then have "min 2 (length (takeWhile is_ws l)) = Suc (min 1 (length (takeWhile is_ws as)))"
        using Cons by simp
      then have "compressLine l = CHR '' '' # replicate (min 1 (length (takeWhile is_ws as))) CHR '' ''
             @ collapse_ws (trim (dropWhile is_ws l))"
        using Cons False by (simp add: compressLine_eq)
      moreover have "is_marker CHR '' ''" by (simp add: is_marker_def)
      moreover have k1: "min 1 (length (takeWhile is_ws as)) \<le> 2" by simp
      ultimately have "\<exists>q k b. compressLine l = q # replicate k CHR '' '' @ b \<and> is_marker q \<and> k \<le> 2 \<and>
        normal_body b"
        using normal_body_compressed [of l] k1 by blast
      then show ?thesis unfolding normal_line_def by blast
    next
      case nws: False
      then have e: "compressLine l = collapse_ws (trim l)"
        using Cons False by (simp add: compressLine_eq)
      obtain ts where t: "trim (a # as) = a # ts" using trim_hd [OF nws] ..
      have "normal_body (collapse_ws (trim (dropWhile is_ws l)))" by (rule normal_body_compressed)
      then have "normal_body (collapse_ws (trim l))" using Cons nws by simp
      then show ?thesis
        unfolding normal_line_def e using t Cons nws False by simp
    qed
  qed
qed


lemma normal_body_fixed:
  assumes "normal_body b"
  shows "takeWhile is_ws b = []" "dropWhile is_ws b = b" "collapse_ws (trim b) = b"
proof -
  have ss: "single_spaced b" and h: "b = [] \<or> \<not> is_ws (hd b)"
    using assms by (simp_all add: normal_body_def)
  show "takeWhile is_ws b = []" using h by (cases b) auto
  show "dropWhile is_ws b = b" using h by (cases b) auto
  have "b = [] \<or> (\<not> is_ws (hd b) \<and> \<not> is_ws (last b))"
    using h single_spaced_last [OF ss] by blast
  then have "trim b = b" by (rule trim_fixed)
  then show "collapse_ws (trim b) = b" using collapse_single_spaced [OF ss] by simp
qed

lemma takeWhile_spaces_body:
  assumes "normal_body b"
  shows "takeWhile is_ws (replicate k CHR '' '' @ b) = replicate k CHR '' ''"
    and "dropWhile is_ws (replicate k CHR '' '' @ b) = b"
  using normal_body_fixed(1,2) [OF assms]
  by (simp_all add: takeWhile_append dropWhile_append)

lemma compressLine_normal: "normal_line s \<Longrightarrow> compressLine s = s"
  unfolding normal_line_def
proof (elim disjE exE conjE)
  assume "s = []"
  then show ?thesis by (simp add: compressLine_def)
next
  fix q k b
  assume s: "s = q # replicate k CHR '' '' @ b" and q: "is_marker q" and k: "k \<le> 2"
    and b: "normal_body b"
  show ?thesis
    using q k by (simp add: s compressLine_eq takeWhile_spaces_body [OF b] normal_body_fixed(3) [OF b])
next
  assume m: "\<not> is_marker (hd s)" and b: "normal_body s"
  show ?thesis
  proof (cases "s = []")
    case True
    then show ?thesis by (simp add: compressLine_def)
  next
    case False
    then show ?thesis
      using m by (simp add: compressLine_eq normal_body_fixed [OF b])
  qed
qed

lemma compressLine_idem: "compressLine (compressLine l) = compressLine l"
  by (rule compressLine_normal) (rule normal_line_compressLine)

lemma normal_body_dots: "normal_body ''...''"
  by (simp add: normal_body_def)

lemma normal_body_take_dots: "normal_body b \<Longrightarrow> normal_body (take i b @ ''...'')"
proof -
  assume b: "normal_body b"
  then have ss: "single_spaced b" and h: "b = [] \<or> \<not> is_ws (hd b)"
    by (simp_all add: normal_body_def)
  have "single_spaced (take i b @ ''...'')"
    by (rule single_spaced_take_append [OF ss]) simp_all
  moreover have "\<not> is_ws (hd (take i b @ ''...''))"
    using h by (cases b; cases i) auto
  ultimately show ?thesis by (simp add: normal_body_def)
qed

lemma normal_line_take_dots:
  assumes "normal_line s" "1 \<le> i"
  shows "normal_line (take i s @ ''...'')"
  using assms(1) unfolding normal_line_def
proof (elim disjE exE conjE)
  assume "s = []"
  then show "take i s @ ''...'' = [] \<or>
      (\<exists>q k b. take i s @ ''...'' = q # replicate k CHR '' '' @ b \<and> is_marker q \<and> k \<le> 2 \<and> normal_body b) \<or>
      (\<not> is_marker (hd (take i s @ ''...'')) \<and> normal_body (take i s @ ''...''))"
    by (simp add: is_marker_def normal_body_dots)
next
  fix q k b
  assume s: "s = q # replicate k CHR '' '' @ b" and q: "is_marker q" and k: "k \<le> 2"
    and b: "normal_body b"
  obtain j where i: "i = Suc j" using assms(2) by (cases i) auto
  have "take i s @ ''...'' = q # replicate (min j k) CHR '' '' @ (take (j - k) b @ ''...'')"
    by (simp add: s i min.commute)
  moreover have "min j k \<le> 2" using k by simp
  moreover have "normal_body (take (j - k) b @ ''...'')" by (rule normal_body_take_dots [OF b])
  ultimately have "\<exists>q k b. take i s @ ''...'' = q # replicate k CHR '' '' @ b \<and> is_marker q \<and> k \<le> 2 \<and>
      normal_body b"
    using q by blast
  then show "take i s @ ''...'' = [] \<or>
      (\<exists>q k b. take i s @ ''...'' = q # replicate k CHR '' '' @ b \<and> is_marker q \<and> k \<le> 2 \<and> normal_body b) \<or>
      (\<not> is_marker (hd (take i s @ ''...'')) \<and> normal_body (take i s @ ''...''))"
    by blast
next
  assume m: "\<not> is_marker (hd s)" and b: "normal_body s"
  have "normal_body (take i s @ ''...'')" by (rule normal_body_take_dots [OF b])
  moreover have "\<not> is_marker (hd (take i s @ ''...''))"
    using m assms(2) by (cases s; cases i) (auto simp: is_marker_def)
  ultimately show "take i s @ ''...'' = [] \<or>
      (\<exists>q k b. take i s @ ''...'' = q # replicate k CHR '' '' @ b \<and> is_marker q \<and> k \<le> 2 \<and> normal_body b) \<or>
      (\<not> is_marker (hd (take i s @ ''...'')) \<and> normal_body (take i s @ ''...''))"
    by blast
qed


lemma startsWith_take_append:
  assumes "startsWith (take i c @ d) p" "i \<le> length c" "d \<noteq> []" "hd d \<notin> set p"
  shows "startsWith c p"
proof (cases "length p \<le> i")
  case True
  then show ?thesis using assms(1,2) by (simp add: startsWith_def)
next
  case False
  then have i: "i < length p" by simp
  have "(take i c @ d) ! i = hd d"
    using assms(2,3) by (simp add: nth_append hd_conv_nth)
  moreover have "i < length (take i c @ d)" using assms(2,3) by (cases d) auto
  ultimately have "take (length p) (take i c @ d) ! i = hd d"
    using i nth_take [of i "length p" "take i c @ d"] by simp
  then have "p ! i = hd d" using assms(1) by (simp add: startsWith_def)
  then have "hd d \<in> set p" using i by (metis nth_mem)
  with assms(4) show ?thesis by simp
qed

lemma isHeaderLine_take_dots:
  assumes "isHeaderLine (take i c @ ''...'')" "i \<le> length c"
  shows "isHeaderLine c"
  using assms unfolding isHeaderLine_def
  by (auto dest!: startsWith_take_append)

lemma isChangeLine_hd: "isChangeLine s \<longleftrightarrow> s \<noteq> [] \<and> (hd s = CHR ''+'' \<or> hd s = CHR ''-'')"
  by (cases s) (auto simp: isChangeLine_def startsWith_def)

lemma truncateLine_cases:
  "truncateLine c m = c \<or>
   (c \<noteq> [] \<and> m < int (length c) \<and> truncateLine c m = take (nat (m - 3)) c @ ''...'')"
  by (auto simp: truncateLine_def)

lemma truncate_normal:
  assumes "normal_line c" "4 \<le> m"
  shows "compressLine (truncateLine c m) = truncateLine c m"
    and "truncateLine (truncateLine c m) m = truncateLine c m"
    and "isChangeLine (truncateLine c m) = isChangeLine c"
    and "\<not> isHeaderLine c \<Longrightarrow> \<not> isHeaderLine (truncateLine c m)"
proof -
  let ?t = "truncateLine c m"
  let ?i = "nat (m - 3)"
  consider (same) "?t = c" | (cut) "c \<noteq> []" "m < int (length c)" "?t = take ?i c @ ''...''"
    using truncateLine_cases [of c m] by blast
  then have "compressLine ?t = ?t \<and> truncateLine ?t m = ?t \<and> isChangeLine ?t = isChangeLine c \<and>
      (\<not> isHeaderLine c \<longrightarrow> \<not> isHeaderLine ?t)"
  proof cases
    case same
    have "normal_line ?t" using assms(1) same by simp
    then have "compressLine ?t = ?t" by (rule compressLine_normal)
    moreover have "truncateLine c m = c \<Longrightarrow> truncateLine (truncateLine c m) m = truncateLine c m"
      by simp
    ultimately show ?thesis using same by simp
  next
    case cut
    have i: "1 \<le> ?i" "?i \<le> length c" using assms(2) cut(2) by simp_all
    have "normal_line ?t" unfolding cut(3) by (rule normal_line_take_dots [OF assms(1) i(1)])
    then have a: "compressLine ?t = ?t" by (rule compressLine_normal)
    have "int (length ?t) = m" unfolding cut(3) using assms(2) cut(2) by simp
    then have b: "truncateLine ?t m = ?t" by (simp add: truncateLine_def)
    have "hd ?t = hd c" unfolding cut(3) using i(1) cut(1) by (cases c; cases ?i) auto
    then have c: "isChangeLine ?t = isChangeLine c"
      using cut(1) unfolding cut(3) by (simp add: isChangeLine_hd)
    have d: "\<not> isHeaderLine c \<longrightarrow> \<not> isHeaderLine ?t"
      unfolding cut(3) using isHeaderLine_take_dots [OF _ i(2)] by blast
    from a b c d show ?thesis by blast
  qed
  then show "compressLine ?t = ?t" "truncateLine ?t m = ?t" "isChangeLine ?t = isChangeLine c"
    "\<not> isHeaderLine c \<Longrightarrow> \<not> isHeaderLine ?t"
    by blast+
qed

lemma marker_line:
  "compressLine ''...'' = ''...''" "\<not> isHeaderLine ''...''" "\<not> isChangeLine ''...''"
  "3 \<le> m \<Longrightarrow> truncateLine ''...'' m = ''...''"
  by (simp_all add: compressLine_def trim_def isHeaderLine_def isChangeLine_def startsWith_def
      truncateLine_def)


lemma simplifyLoop_Nil: "simplifyLoop config st [] = st"
  by (simp add: simplifyLoop_def)

lemma simplifyLoop_Cons: "simplifyLoop config st (l # ls) = simplifyLoop config (simplifyStep config st l) ls"
  by (simp add: simplifyLoop_def)

lemma simplifyLoop_append:
  "simplifyLoop config st (xs @ ys) = simplifyLoop config (simplifyLoop config st xs) ys"
  by (simp add: simplifyLoop_def)

lemma simplifyStep_out:
  "simplifyStep config (out, k) l =
     (out @ fst (simplifyStep config ([], k) l), snd (simplifyStep config ([], k) l))"
  by (simp add: simplifyStep_def Let_def)

lemma simplifyLoop_out:
  "simplifyLoop config (out, k) ls =
     (out @ fst (simplifyLoop config ([], k) ls), snd (simplifyLoop config ([], k) ls))"
proof (induction ls arbitrary: out k)
  case Nil
  then show ?case by (simp add: simplifyLoop_Nil)
next
  case (Cons l ls)
  obtain new k' where s: "simplifyStep config ([], k) l = (new, k')"
    by (cases "simplifyStep config ([], k) l")
  have s': "simplifyStep config (out, k) l = (out @ new, k')"
    using simplifyStep_out [of config out k l] s by simp
  show ?case
    by (simp add: simplifyLoop_Cons s s' Cons.IH [of "out @ new" k'] Cons.IH [of new k'])
qed

lemma simplifyStep_replay:
  assumes "4 \<le> maxLineLength config"
  shows "simplifyLoop config (out, k) (fst (simplifyStep config ([], k) l)) =
     (out @ fst (simplifyStep config ([], k) l), snd (simplifyStep config ([], k) l))"
proof -
  let ?c = "compressLine l"
  let ?m = "maxLineLength config"
  let ?t = "truncateLine ?c ?m"
  have n: "normal_line ?c" by (rule normal_line_compressLine)
  note t = truncate_normal [OF n assms]
  have m3: "3 \<le> ?m" using assms by simp
  consider (header) "isHeaderLine ?c"
    | (change) "\<not> isHeaderLine ?c" "isChangeLine ?c"
    | (keep) "\<not> isHeaderLine ?c" "\<not> isChangeLine ?c" "int k < contextLines config"
    | (mark) "\<not> isHeaderLine ?c" "\<not> isChangeLine ?c" "int k = contextLines config"
    | (drop) "\<not> isHeaderLine ?c" "\<not> isChangeLine ?c" "contextLines config < int k"
    by linarith
  then show ?thesis
  proof cases
    case header
    then have "simplifyStep config ([], k) l = ([?c], k)" by (simp add: simplifyStep_def)
    moreover have "simplifyStep config (out, k) ?c = (out @ [?c], k)"
      using header by (simp add: simplifyStep_def compressLine_idem)
    ultimately show ?thesis by (simp add: simplifyLoop_Cons simplifyLoop_Nil)
  next
    case change
    then have "simplifyStep config ([], k) l = ([?t], 0)" by (simp add: simplifyStep_def)
    moreover have "simplifyStep config (out, k) ?t = (out @ [?t], 0)"
      using change t by (simp add: simplifyStep_def)
    ultimately show ?thesis by (simp add: simplifyLoop_Cons simplifyLoop_Nil)
  next
    case keep
    then have "simplifyStep config ([], k) l = ([?t], k + 1)" by (simp add: simplifyStep_def)
    moreover have "simplifyStep config (out, k) ?t = (out @ [?t], k + 1)"
      using keep t by (simp add: simplifyStep_def)
    ultimately show ?thesis by (simp add: simplifyLoop_Cons simplifyLoop_Nil)
  next
    case mark
    then have "simplifyStep config ([], k) l = ([''...''], k + 1)" by (simp add: simplifyStep_def)
    moreover have "simplifyStep config (out, k) ''...'' = (out @ [''...''], k + 1)"
      using mark marker_line(1,2,3) by (simp add: simplifyStep_def)
    ultimately show ?thesis by (simp add: simplifyLoop_Cons simplifyLoop_Nil)
  next
    case drop
    then have "simplifyStep config ([], k) l = ([], k)" by (simp add: simplifyStep_def)
    then show ?thesis by (simp add: simplifyLoop_Nil)
  qed
qed

lemma simplifyLoop_replay:
  assumes "4 \<le> maxLineLength config"
  shows "simplifyLoop config (out, k0) (fst (simplifyLoop config ([], k0) ls)) =
     (out @ fst (simplifyLoop config ([], k0) ls), snd (simplifyLoop config ([], k0) ls))"
proof (induction ls arbitrary: out rule: rev_induct)
  case Nil
  then show ?case by (simp add: simplifyLoop_Nil)
next
  case (snoc l ls)
  obtain acc k where p: "simplifyLoop config ([], k0) ls = (acc, k)"
    by (cases "simplifyLoop config ([], k0) ls")
  obtain new k' where s: "simplifyStep config ([], k) l = (new, k')"
    by (cases "simplifyStep config ([], k) l")
  have all: "simplifyLoop config ([], k0) (ls @ [l]) = (acc @ new, k')"
    using simplifyStep_out [of config acc k l]
    by (simp add: simplifyLoop_append p simplifyLoop_Cons simplifyLoop_Nil s)
  have "simplifyLoop config (out, k0) (acc @ new) = simplifyLoop config (out @ acc, k) new"
    using snoc.IH [of out] by (simp add: simplifyLoop_append p)
  also have "\<dots> = ((out @ acc) @ new, k')"
    using simplifyStep_replay [OF assms, of "out @ acc" k l] by (simp add: s)
  finally show ?case by (simp add: all)
qed


lemma split_nl_line: "CHR 0x0A \<notin> set l \<Longrightarrow> split_nl (l @ CHR 0x0A # rest) = l # split_nl rest"
  by (induction l) auto

lemma split_nl_single: "CHR 0x0A \<notin> set l \<Longrightarrow> split_nl l = [l]"
  by (induction l) auto

lemma split_nl_nonempty: "split_nl s \<noteq> []"
  by (induction s) (auto split: list.splits)

lemma split_join_nl:
  "ls \<noteq> [] \<Longrightarrow> \<forall>l \<in> set ls. CHR 0x0A \<notin> set l \<Longrightarrow> split_nl (join_nl ls) = ls"
proof (induction ls rule: join_nl.induct)
  case 1
  then show ?case by simp
next
  case (2 l)
  then show ?case by (simp add: split_nl_single)
next
  case (3 l v va)
  then show ?case by (simp add: split_nl_line)
qed

lemma single_spaced_chars: "single_spaced b \<Longrightarrow> x \<in> set b \<Longrightarrow> is_ws x \<Longrightarrow> x = CHR '' ''"
  by (induction b rule: single_spaced.induct) auto

lemma normal_line_no_nl: "normal_line s \<Longrightarrow> CHR 0x0A \<notin> set s"
proof
  assume n: "normal_line s" and m: "CHR 0x0A \<in> set s"
  have ws: "is_ws (CHR 0x0A)" by (simp add: is_ws_def)
  have b: "CHR 0x0A \<notin> set b" if "normal_body b" for b
    using single_spaced_chars [of b "CHR 0x0A"] that ws by (auto simp: normal_body_def)
  from n show False unfolding normal_line_def
  proof (elim disjE exE conjE)
    assume "s = []"
    with m show False by simp
  next
    fix q k b
    assume "s = q # replicate k CHR '' '' @ b" "is_marker q" "normal_body b"
    with m b [of b] show False by (auto simp: is_marker_def)
  next
    assume "normal_body s"
    with m b [of s] show False by simp
  qed
qed

lemma simplifyStep_normal:
  assumes "4 \<le> maxLineLength config"
  shows "\<forall>x \<in> set (fst (simplifyStep config ([], k) l)). normal_line x"
proof -
  have c: "normal_line (compressLine l)" by (rule normal_line_compressLine)
  have "compressLine (truncateLine (compressLine l) (maxLineLength config)) =
      truncateLine (compressLine l) (maxLineLength config)"
    by (rule truncate_normal(1) [OF c assms])
  then have t: "normal_line (truncateLine (compressLine l) (maxLineLength config))"
    using normal_line_compressLine [of "truncateLine (compressLine l) (maxLineLength config)"] by simp
  have d: "normal_line ''...''"
    using normal_line_compressLine [of "''...''"] by (simp add: marker_line(1))
  show ?thesis using c t d by (simp add: simplifyStep_def Let_def)
qed

lemma simplifyLoop_normal:
  assumes "4 \<le> maxLineLength config"
  shows "\<forall>x \<in> set (fst (simplifyLoop config ([], k) ls)). normal_line x"
proof (induction ls arbitrary: k)
  case Nil
  then show ?case by (simp add: simplifyLoop_Nil)
next
  case (Cons l ls)
  obtain new k' where s: "simplifyStep config ([], k) l = (new, k')"
    by (cases "simplifyStep config ([], k) l")
  have "\<forall>x \<in> set new. normal_line x" using simplifyStep_normal [OF assms, of k l] s by simp
  moreover have "simplifyLoop config ([], k) (l # ls) =
      (new @ fst (simplifyLoop config ([], k') ls), snd (simplifyLoop config ([], k') ls))"
    using simplifyLoop_out [of config new k' ls] by (simp add: simplifyLoop_Cons s)
  ultimately show ?case using Cons.IH [of k'] by auto
qed

lemma simplifyLoop_nothing:
  assumes "fst (simplifyLoop config ([], 0) (l # ls)) = []"
  shows "contextLines config < 0"
proof -
  obtain new k' where s: "simplifyStep config ([], 0) l = (new, k')"
    by (cases "simplifyStep config ([], 0) l")
  have "simplifyLoop config ([], 0) (l # ls) =
      (new @ fst (simplifyLoop config ([], k') ls), snd (simplifyLoop config ([], k') ls))"
    using simplifyLoop_out [of config new k' ls] by (simp add: simplifyLoop_Cons s)
  with assms have "new = []" by simp
  with s show ?thesis by (auto simp: simplifyStep_def Let_def split: if_splits)
qed

text \<open>
  C4, amended: for a configuration whose \<open>maxLineLength\<close> is at least 4, or in which
  simplification is disabled, \<open>simplify\<close> is idempotent: simplifying its own output returns
  that output.
\<close>

theorem simplify_idempotent:
  assumes "4 \<le> maxLineLength config \<or> \<not> enabled config"
  shows "simplify config (simplify config d) = simplify config d"
proof (cases "enabled config")
  case False
  then show ?thesis by (simp add: simplify_def)
next
  case True
  have m: "4 \<le> maxLineLength config" using assms True by simp
  let ?out = "fst (simplifyLoop config ([], 0) (split_nl d))"
  have s: "simplify config d = join_nl ?out" using True by (simp add: simplify_def)
  show ?thesis
  proof (cases "?out = []")
    case e: True
    obtain l ls where "split_nl d = l # ls" using split_nl_nonempty [of d] by (cases "split_nl d") auto
    with e have "contextLines config < 0" using simplifyLoop_nothing [of config l ls] by simp
    then have "simplifyStep config ([], 0) [] = ([], 0)"
      by (simp add: simplifyStep_def compressLine_def isHeaderLine_def isChangeLine_def startsWith_def)
    then have "simplify config [] = []"
      using True by (simp add: simplify_def simplifyLoop_Cons simplifyLoop_Nil)
    then show ?thesis using e by (simp add: s)
  next
    case ne: False
    have "\<forall>l \<in> set ?out. CHR 0x0A \<notin> set l"
      using simplifyLoop_normal [OF m, of 0 "split_nl d"] normal_line_no_nl by blast
    then have "split_nl (join_nl ?out) = ?out" by (rule split_join_nl [OF ne])
    moreover have "fst (simplifyLoop config ([], 0) ?out) = ?out"
      using simplifyLoop_replay [OF m, of "[]" 0 "split_nl d"] by simp
    ultimately show ?thesis using True by (simp add: simplify_def)
  qed
qed

text \<open>
  C4, as stated, fails for a maximum length of 3 or less: a changed line longer than that
  is cut to the bare \<open>...\<close>, which a second pass reads as a context line. With
  \<open>contextLines = 0\<close> the second pass drops the second marker.
\<close>

theorem simplify_idempotent_counterexample:
  "simplify \<lparr>enabled = True, contextLines = 0, maxLineLength = 3\<rparr> ''+abcd\<newline>x'' = ''...\<newline>...'' \<and>
   simplify \<lparr>enabled = True, contextLines = 0, maxLineLength = 3\<rparr> ''...\<newline>...'' = ''...''"
  by (simp add: simplify_def simplifyLoop_def simplifyStep_def compressLine_def trim_def is_ws_def
      isHeaderLine_def isChangeLine_def startsWith_def truncateLine_def)

theorem simplify_idempotent_witness:
  "(4::int) \<le> 12 \<and>
   simplify \<lparr>enabled = True, contextLines = 1, maxLineLength = 12\<rparr>
     ''Index: a.ts\<newline>+const  total = 1;\<newline> one\<newline> two\<newline> three'' =
     ''Index: a.ts\<newline>+const to...\<newline> one\<newline>...'' \<and>
   simplify \<lparr>enabled = True, contextLines = 1, maxLineLength = 12\<rparr>
     ''Index: a.ts\<newline>+const to...\<newline> one\<newline>...'' =
     ''Index: a.ts\<newline>+const to...\<newline> one\<newline>...'' \<and>
   \<not> enabled \<lparr>enabled = False, contextLines = 0, maxLineLength = 3\<rparr> \<and>
   simplify \<lparr>enabled = False, contextLines = 0, maxLineLength = 3\<rparr>
     (simplify \<lparr>enabled = False, contextLines = 0, maxLineLength = 3\<rparr> ''+abcd\<newline>x'') =
     simplify \<lparr>enabled = False, contextLines = 0, maxLineLength = 3\<rparr> ''+abcd\<newline>x''"
proof -
  have v: "simplify \<lparr>enabled = True, contextLines = 1, maxLineLength = 12\<rparr>
     ''Index: a.ts\<newline>+const  total = 1;\<newline> one\<newline> two\<newline> three'' =
     ''Index: a.ts\<newline>+const to...\<newline> one\<newline>...''"
    by (simp add: simplify_def simplifyLoop_def simplifyStep_def compressLine_def trim_def is_ws_def
      isHeaderLine_def isChangeLine_def startsWith_def truncateLine_def)
  have on: "(4::int) \<le> maxLineLength \<lparr>enabled = True, contextLines = 1, maxLineLength = 12\<rparr> \<or>
      \<not> enabled \<lparr>enabled = True, contextLines = 1, maxLineLength = 12\<rparr>"
    by simp
  have off: "(4::int) \<le> maxLineLength \<lparr>enabled = False, contextLines = 0, maxLineLength = 3\<rparr> \<or>
      \<not> enabled \<lparr>enabled = False, contextLines = 0, maxLineLength = 3\<rparr>"
    by simp
  note a = simplify_idempotent
    [OF on, of "''Index: a.ts\<newline>+const  total = 1;\<newline> one\<newline> two\<newline> three''", unfolded v]
  note b = simplify_idempotent [OF off, of "''+abcd\<newline>x''"]
  from a b v show ?thesis by simp
qed

section \<open>Truncation of the lines kept\<close>

lemma truncateLine_no_nl: "CHR 0x0A \<notin> set s \<Longrightarrow> CHR 0x0A \<notin> set (truncateLine s m)"
  by (auto simp: truncateLine_def dest: in_set_takeD)

lemma simplifyStep_no_nl: "x \<in> set (fst (simplifyStep config ([], k) l)) \<Longrightarrow> CHR 0x0A \<notin> set x"
  using normal_line_no_nl [OF normal_line_compressLine, of l]
    truncateLine_no_nl [of "compressLine l" "maxLineLength config"]
  by (auto simp: simplifyStep_def Let_def split: if_splits)

lemma simplifyLoop_no_nl: "\<forall>x \<in> set (fst (simplifyLoop config ([], k) ls)). CHR 0x0A \<notin> set x"
proof (induction ls arbitrary: k)
  case Nil
  then show ?case by (simp add: simplifyLoop_Nil)
next
  case (Cons l ls)
  obtain new k' where s: "simplifyStep config ([], k) l = (new, k')"
    by (cases "simplifyStep config ([], k) l")
  have "\<forall>x \<in> set new. CHR 0x0A \<notin> set x" using simplifyStep_no_nl [of _ config k l] s by simp
  moreover have "simplifyLoop config ([], k) (l # ls) =
      (new @ fst (simplifyLoop config ([], k') ls), snd (simplifyLoop config ([], k') ls))"
    using simplifyLoop_out [of config new k' ls] by (simp add: simplifyLoop_Cons s)
  ultimately show ?case using Cons.IH [of k'] by auto
qed

text \<open>
  C5, as stated, fails for a maximum length below 3: the line that \<open>simplify\<close> returns for
  a changed line of five characters is three characters long when the maximum is 2.
\<close>

theorem truncate_to_max_counterexample:
  "(2::int) < int (length (compressLine ''+abcd'')) \<and>
   simplify \<lparr>enabled = True, contextLines = 3, maxLineLength = 2\<rparr> ''+abcd'' = ''...'' \<and>
   int (length ''...'') \<noteq> 2"
  by (simp add: simplify_def simplifyLoop_def simplifyStep_def compressLine_def trim_def is_ws_def
      isHeaderLine_def isChangeLine_def startsWith_def truncateLine_def)

text \<open>
  C5, amended: when simplification is enabled and \<open>maxLineLength\<close> is at least 3, every
  line of the input that \<open>simplify\<close> keeps and that is not a header line (a changed line, or
  a context line met while fewer than \<open>contextLines\<close> context lines were kept since the
  last changed line) gives one line of the output of \<open>simplify\<close>, which stands after the
  lines given by the lines before it and before the lines given by the lines after it. If
  the compressed length of the line exceeds \<open>maxLineLength\<close>, that output line is exactly
  \<open>maxLineLength\<close> characters long and ends with \<open>...\<close>: it is the first
  \<open>maxLineLength - 3\<close> characters of the compressed line followed by \<open>...\<close>. Otherwise it
  is the compressed line unchanged; the truncation step returns every line of length at
  most \<open>maxLineLength\<close> unchanged.
\<close>

theorem simplify_truncates_kept_line:
  assumes "enabled config"
    and "3 \<le> maxLineLength config"
    and "split_nl d = pre @ l # post"
    and "\<not> isHeaderLine (compressLine l)"
    and "isChangeLine (compressLine l) \<or>
         int (snd (simplifyLoop config ([], 0) pre)) < contextLines config"
  shows "(\<exists>t. split_nl (simplify config d) =
             fst (simplifyLoop config ([], 0) pre) @ t #
             fst (simplifyLoop config
                    ([], if isChangeLine (compressLine l) then 0
                         else snd (simplifyLoop config ([], 0) pre) + 1) post) \<and>
           (if maxLineLength config < int (length (compressLine l))
            then int (length t) = maxLineLength config \<and> suffix ''...'' t \<and>
                 t = take (nat (maxLineLength config - 3)) (compressLine l) @ ''...''
            else t = compressLine l)) \<and>
         (\<forall>s. int (length s) \<le> maxLineLength config \<longrightarrow>
              truncateLine s (maxLineLength config) = s)"
proof -
  let ?A = "fst (simplifyLoop config ([], 0) pre)"
  let ?k = "snd (simplifyLoop config ([], 0) pre)"
  let ?t = "truncateLine (compressLine l) (maxLineLength config)"
  let ?k' = "if isChangeLine (compressLine l) then 0 else ?k + 1"
  let ?B = "fst (simplifyLoop config ([], ?k') post)"
  have step: "simplifyStep config (?A, ?k) l = (?A @ [?t], ?k')"
    using assms(4,5) by (auto simp: simplifyStep_def Let_def)
  have "simplifyLoop config ([], 0) (pre @ l # post) =
      simplifyLoop config (simplifyStep config (?A, ?k) l) post"
    by (simp add: simplifyLoop_append simplifyLoop_Cons)
  then have "fst (simplifyLoop config ([], 0) (split_nl d)) = (?A @ [?t]) @ ?B"
    using simplifyLoop_out [of config "?A @ [?t]" ?k' post] by (simp only: assms(3) step fst_conv)
  then have out: "fst (simplifyLoop config ([], 0) (split_nl d)) = ?A @ ?t # ?B" by simp
  have "\<forall>x \<in> set (?A @ ?t # ?B). CHR 0x0A \<notin> set x"
    using simplifyLoop_no_nl [of config 0 "split_nl d"] by (simp only: out)
  then have "split_nl (join_nl (?A @ ?t # ?B)) = ?A @ ?t # ?B"
    by (intro split_join_nl) simp_all
  then have sp: "split_nl (simplify config d) = ?A @ ?t # ?B"
    using assms(1) by (simp add: simplify_def out)
  have "if maxLineLength config < int (length (compressLine l))
        then int (length ?t) = maxLineLength config \<and> suffix ''...'' ?t \<and>
             ?t = take (nat (maxLineLength config - 3)) (compressLine l) @ ''...''
        else ?t = compressLine l"
    using assms(2) truncateLine_long [of "maxLineLength config" "compressLine l"]
    by (auto simp: truncateLine_def)
  moreover have "\<forall>s. int (length s) \<le> maxLineLength config \<longrightarrow>
      truncateLine s (maxLineLength config) = s"
    by (simp add: truncateLine_def)
  ultimately show ?thesis using sp by blast
qed

lemma compressLine_example: "compressLine ''+ab   cdefgh'' = ''+ab cdefgh''"
  by (simp add: compressLine_def trim_def is_ws_def)

lemma example_lines:
  "split_nl ''Index: a.ts\<newline>+ab   cdefgh\<newline> one'' = [''Index: a.ts''] @ ''+ab   cdefgh'' # ['' one'']"
  by simp

theorem simplify_truncates_kept_line_witness:
  "enabled \<lparr>enabled = True, contextLines = 3, maxLineLength = 8\<rparr> \<and>
   (3::int) \<le> maxLineLength \<lparr>enabled = True, contextLines = 3, maxLineLength = 8\<rparr> \<and>
   split_nl ''Index: a.ts\<newline>+ab   cdefgh\<newline> one'' =
     [''Index: a.ts''] @ ''+ab   cdefgh'' # ['' one''] \<and>
   \<not> isHeaderLine (compressLine ''+ab   cdefgh'') \<and>
   isChangeLine (compressLine ''+ab   cdefgh'') \<and>
   (8::int) < int (length (compressLine ''+ab   cdefgh'')) \<and>
   split_nl (simplify \<lparr>enabled = True, contextLines = 3, maxLineLength = 8\<rparr>
               ''Index: a.ts\<newline>+ab   cdefgh\<newline> one'') =
     [''Index: a.ts'', ''+ab c...'', '' one''] \<and>
   int (length ''+ab c...'') = 8 \<and> suffix ''...'' ''+ab c...''"
proof -
  let ?c = "\<lparr>enabled = True, contextLines = 3, maxLineLength = 8\<rparr>"
  have pre: "simplifyLoop ?c ([], 0) [''Index: a.ts''] = ([''Index: a.ts''], 0)"
    by (simp add: simplifyLoop_def simplifyStep_def compressLine_def trim_def is_ws_def
        isHeaderLine_def startsWith_def)
  have post: "simplifyLoop ?c ([], 0) ['' one''] = (['' one''], Suc 0)"
    by (simp add: simplifyLoop_def simplifyStep_def compressLine_def trim_def is_ws_def
        isHeaderLine_def isChangeLine_def startsWith_def truncateLine_def)
  have h: "\<not> isHeaderLine (compressLine ''+ab   cdefgh'')"
    "isChangeLine (compressLine ''+ab   cdefgh'')"
    by (simp_all add: compressLine_example isHeaderLine_def isChangeLine_def startsWith_def)
  have a: "enabled ?c" "3 \<le> maxLineLength ?c" by simp_all
  have b: "isChangeLine (compressLine ''+ab   cdefgh'') \<or>
      int (snd (simplifyLoop ?c ([], 0) [''Index: a.ts''])) < contextLines ?c"
    using h by simp
  from simplify_truncates_kept_line [OF a example_lines h(1) b]
  show ?thesis using h by (simp add: pre post compressLine_example suffix_def)
qed

section \<open>Runs of context lines\<close>

lemma step_header:
  "isHeaderLine (compressLine h) \<Longrightarrow> simplifyStep config (out, k) h = (out @ [compressLine h], k)"
  by (simp add: simplifyStep_def)

lemma step_change:
  "\<not> isHeaderLine (compressLine c) \<Longrightarrow> isChangeLine (compressLine c) \<Longrightarrow>
   simplifyStep config (out, k) c = (out @ [truncateLine (compressLine c) (maxLineLength config)], 0)"
  by (simp add: simplifyStep_def)

lemma step_context:
  "isContextLine l \<Longrightarrow>
   simplifyStep config (out, k) l =
     (if int k < contextLines config
      then (out @ [truncateLine (compressLine l) (maxLineLength config)], k + 1)
      else if int k = contextLines config then (out @ [''...''], k + 1)
      else (out, k))"
  by (simp add: simplifyStep_def isContextLine_def)

lemma context_run_kept:
  "\<forall>l \<in> set cs. isContextLine l \<Longrightarrow> int (k + length cs) \<le> contextLines config \<Longrightarrow>
   simplifyLoop config (out, k) cs =
     (out @ map (\<lambda>l. truncateLine (compressLine l) (maxLineLength config)) cs, k + length cs)"
proof (induction cs arbitrary: out k)
  case Nil
  then show ?case by (simp add: simplifyLoop_Nil)
next
  case (Cons l cs)
  have "simplifyStep config (out, k) l =
      (out @ [truncateLine (compressLine l) (maxLineLength config)], k + 1)"
    using Cons.prems by (simp add: step_context)
  moreover have "int (Suc k + length cs) \<le> contextLines config" using Cons.prems by simp
  ultimately show ?case
    using Cons.IH [of "Suc k" "out @ [truncateLine (compressLine l) (maxLineLength config)]"] Cons.prems(1)
    by (simp add: simplifyLoop_Cons)
qed

lemma counter_after_reset:
  "counterReset pre \<Longrightarrow> snd (simplifyLoop config (out, 0) pre) = 0"
proof (induction pre rule: rev_induct)
  case Nil
  then show ?case by (simp add: simplifyLoop_Nil)
next
  case (snoc l pre)
  obtain acc k where p: "simplifyLoop config (out, 0) pre = (acc, k)"
    by (cases "simplifyLoop config (out, 0) pre")
  show ?case
  proof (cases "isHeaderLine (compressLine l)")
    case True
    then have "counterReset pre" using snoc.prems by (simp add: counterReset_def)
    then have "k = 0" using snoc.IH p by simp
    then show ?thesis
      using True by (simp add: simplifyLoop_append p simplifyLoop_Cons simplifyLoop_Nil step_header)
  next
    case False
    then have "isChangeLine (compressLine l)" using snoc.prems by (simp add: counterReset_def)
    then show ?thesis
      using False by (simp add: simplifyLoop_append p simplifyLoop_Cons simplifyLoop_Nil step_change)
  qed
qed

text \<open>
  C2, amended: with simplification enabled and \<open>contextLines\<close> not negative, a run of
  exactly \<open>contextLines + 1\<close> context lines that starts with the counter at zero (at the
  start of the input, or after a changed line with nothing but header lines in between)
  gives exactly \<open>contextLines\<close> literal lines (compressed, truncated) and then one \<open>...\<close>
  marker; what follows is processed with the counter at \<open>contextLines + 1\<close>.
\<close>

theorem context_run_boundary:
  assumes "enabled config" and "0 \<le> contextLines config"
    and "split_nl d = pre @ run @ post" and "counterReset pre"
    and "\<forall>l \<in> set run. isContextLine l"
    and "int (length run) = contextLines config + 1"
  shows "simplify config d =
     join_nl (fst (simplifyLoop config ([], 0) pre)
       @ map (\<lambda>l. truncateLine (compressLine l) (maxLineLength config)) (butlast run)
       @ [''...'']
       @ fst (simplifyLoop config ([], length run) post))"
proof -
  let ?tc = "\<lambda>l. truncateLine (compressLine l) (maxLineLength config)"
  obtain acc k where p: "simplifyLoop config ([], 0) pre = (acc, k)"
    by (cases "simplifyLoop config ([], 0) pre")
  have k: "k = 0" using counter_after_reset [OF assms(4), of config "[]"] p by simp
  have ne: "run \<noteq> []" using assms(2,6) by auto
  then obtain b x where r: "run = b @ [x]" by (cases run rule: rev_cases) auto
  have bl: "butlast run = b" and lr: "length run = Suc (length b)" by (simp_all add: r)
  have lb: "int (length b) = contextLines config" using assms(6) lr by linarith
  have cb: "\<forall>l \<in> set b. isContextLine l" and cl: "isContextLine x" using assms(5) by (simp_all add: r)
  have 1: "simplifyLoop config (acc, 0) b = (acc @ map ?tc b, length b)"
    using context_run_kept [OF cb, of 0 config acc] lb by simp
  have 2: "simplifyStep config (acc @ map ?tc b, length b) x = (acc @ map ?tc b @ [''...''], Suc (length b))"
    using lb by (simp add: step_context [OF cl])
  have "simplifyLoop config (acc, 0) run = (acc @ map ?tc (butlast run) @ [''...''], length run)"
    unfolding bl lr unfolding r
    by (simp only: simplifyLoop_append 1 simplifyLoop_Cons simplifyLoop_Nil 2)
  then have "simplifyLoop config ([], 0) (pre @ run @ post) =
      simplifyLoop config (acc @ map ?tc (butlast run) @ [''...''], length run) post"
    by (simp add: simplifyLoop_append p k)
  also have "\<dots> = ((acc @ map ?tc (butlast run) @ [''...'']) @ fst (simplifyLoop config ([], length run) post),
      snd (simplifyLoop config ([], length run) post))"
    by (rule simplifyLoop_out)
  finally show ?thesis using assms(1,3) p by (simp add: simplify_def)
qed

text \<open>
  C2, as stated, fails for a run that follows a header line when the counter is not zero
  there: with \<open>contextLines = 2\<close>, the lines \<open>p\<close>, \<open>q\<close>, \<open>r\<close> after the header are a maximal
  run of exactly three context lines, and none of them nor a marker is in the output.
\<close>

theorem context_run_boundary_counterexample:
  "split_nl ''x\<newline>y\<newline>z\<newline>--- f\<newline>p\<newline>q\<newline>r'' = [''x'', ''y'', ''z''] @ [''--- f''] @ [''p'', ''q'', ''r''] \<and>
   isHeaderLine (compressLine ''--- f'') \<and>
   isContextLine ''p'' \<and> isContextLine ''q'' \<and> isContextLine ''r'' \<and>
   simplify \<lparr>enabled = True, contextLines = 2, maxLineLength = 120\<rparr>
     ''x\<newline>y\<newline>z\<newline>--- f\<newline>p\<newline>q\<newline>r'' = ''x\<newline>y\<newline>...\<newline>--- f''"
  by (simp add: simplify_def simplifyLoop_def simplifyStep_def compressLine_def trim_def is_ws_def
      isHeaderLine_def isChangeLine_def startsWith_def truncateLine_def isContextLine_def)

theorem context_run_boundary_witness:
  "enabled \<lparr>enabled = True, contextLines = 2, maxLineLength = 120\<rparr> \<and>
   (0::int) \<le> 2 \<and>
   split_nl ''+a\<newline>--- f\<newline>p\<newline>q\<newline>r\<newline>-b'' = [''+a'', ''--- f''] @ [''p'', ''q'', ''r''] @ [''-b''] \<and>
   counterReset [''+a'', ''--- f''] \<and>
   isContextLine ''p'' \<and> isContextLine ''q'' \<and> isContextLine ''r'' \<and>
   simplify \<lparr>enabled = True, contextLines = 2, maxLineLength = 120\<rparr>
     ''+a\<newline>--- f\<newline>p\<newline>q\<newline>r\<newline>-b'' = ''+a\<newline>--- f\<newline>p\<newline>q\<newline>...\<newline>-b''"
proof -
  let ?c = "\<lparr>enabled = True, contextLines = 2, maxLineLength = 120\<rparr>"
  have e: "enabled ?c" "0 \<le> contextLines ?c" by simp_all
  have s: "split_nl ''+a\<newline>--- f\<newline>p\<newline>q\<newline>r\<newline>-b'' = [''+a'', ''--- f''] @ [''p'', ''q'', ''r''] @ [''-b'']"
    by simp
  have c: "compressLine ''+a'' = ''+a''" "compressLine ''--- f'' = ''--- f''" "compressLine ''p'' = ''p''"
    "compressLine ''q'' = ''q''" "compressLine ''r'' = ''r''" "compressLine ''-b'' = ''-b''"
    by (simp_all add: compressLine_def trim_def is_ws_def)
  have r: "counterReset [''+a'', ''--- f'']"
    by (simp add: counterReset_def c isHeaderLine_def isChangeLine_def startsWith_def)
  have x: "\<forall>l \<in> set [''p'', ''q'', ''r'']. isContextLine l"
    by (simp add: isContextLine_def c isHeaderLine_def isChangeLine_def startsWith_def)
  have n: "int (length [''p'', ''q'', ''r'']) = contextLines ?c + 1" by simp
  have v: "join_nl (fst (simplifyLoop ?c ([], 0) [''+a'', ''--- f''])
       @ map (\<lambda>l. truncateLine (compressLine l) (maxLineLength ?c)) (butlast [''p'', ''q'', ''r''])
       @ [''...'']
       @ fst (simplifyLoop ?c ([], length [''p'', ''q'', ''r'']) [''-b''])) =
     ''+a\<newline>--- f\<newline>p\<newline>q\<newline>...\<newline>-b''"
    by (simp add: simplifyLoop_def simplifyStep_def c isHeaderLine_def isChangeLine_def startsWith_def
        truncateLine_def)
  from context_run_boundary [OF e s r x n] have
    "simplify ?c ''+a\<newline>--- f\<newline>p\<newline>q\<newline>r\<newline>-b'' = ''+a\<newline>--- f\<newline>p\<newline>q\<newline>...\<newline>-b''"
    unfolding v .
  then show ?thesis using e s r x by simp
qed


lemma headers_kept:
  "subseq (map compressLine (filter (\<lambda>l. isHeaderLine (compressLine l)) ls))
     (fst (simplifyLoop config ([], k) ls))"
proof (induction ls arbitrary: k)
  case Nil
  then show ?case by (simp add: simplifyLoop_Nil)
next
  case (Cons l ls)
  obtain new k' where s: "simplifyStep config ([], k) l = (new, k')"
    by (cases "simplifyStep config ([], k) l")
  have all: "fst (simplifyLoop config ([], k) (l # ls)) = new @ fst (simplifyLoop config ([], k') ls)"
    using simplifyLoop_out [of config new k' ls] by (simp add: simplifyLoop_Cons s)
  show ?case
  proof (cases "isHeaderLine (compressLine l)")
    case True
    then have "new = [compressLine l]" using s step_header [of l config "[]" k] by simp
    then show ?thesis using True Cons.IH [of k'] by (simp add: all)
  next
    case False
    then show ?thesis using Cons.IH [of k'] by (simp add: all subseq_drop_many)
  qed
qed

text \<open>
  C3, amended: a header line is pushed compressed and untruncated and leaves the counter
  as it is; a changed line resets the counter, so that the context lines after it, up to
  \<open>contextLines\<close> of them, are kept literally; and the compressed header lines of the
  input are all in the output, in their order.
\<close>

theorem counter_reset_by_change_only:
  "(isHeaderLine (compressLine h) \<longrightarrow>
      simplifyLoop config (out, k) (h # rest) = simplifyLoop config (out @ [compressLine h], k) rest) \<and>
   (\<not> isHeaderLine (compressLine c) \<and> isChangeLine (compressLine c) \<and>
    (\<forall>l \<in> set cs. isContextLine l) \<and> int (length cs) \<le> contextLines config \<longrightarrow>
      simplifyLoop config (out, k) (c # cs) =
        (out @ truncateLine (compressLine c) (maxLineLength config)
           # map (\<lambda>l. truncateLine (compressLine l) (maxLineLength config)) cs,
         length cs)) \<and>
   subseq (map compressLine (filter (\<lambda>l. isHeaderLine (compressLine l)) ls))
     (fst (simplifyLoop config (out, k) ls))"
proof (intro conjI impI)
  assume "isHeaderLine (compressLine h)"
  then show "simplifyLoop config (out, k) (h # rest) = simplifyLoop config (out @ [compressLine h], k) rest"
    by (simp add: simplifyLoop_Cons step_header)
next
  assume a: "\<not> isHeaderLine (compressLine c) \<and> isChangeLine (compressLine c) \<and>
    (\<forall>l \<in> set cs. isContextLine l) \<and> int (length cs) \<le> contextLines config"
  then have x: "\<forall>l \<in> set cs. isContextLine l" and n: "int (0 + length cs) \<le> contextLines config"
    by simp_all
  show "simplifyLoop config (out, k) (c # cs) =
        (out @ truncateLine (compressLine c) (maxLineLength config)
           # map (\<lambda>l. truncateLine (compressLine l) (maxLineLength config)) cs,
         length cs)"
    using a context_run_kept [OF x n, of "out @ [truncateLine (compressLine c) (maxLineLength config)]"]
    by (simp add: simplifyLoop_Cons step_change)
next
  have "fst (simplifyLoop config (out, k) ls) = out @ fst (simplifyLoop config ([], k) ls)"
    using simplifyLoop_out [of config out k ls] by simp
  then show "subseq (map compressLine (filter (\<lambda>l. isHeaderLine (compressLine l)) ls))
     (fst (simplifyLoop config (out, k) ls))"
    using headers_kept [of ls config k] by (simp add: subseq_drop_many)
qed

text \<open>
  C3, as stated, fails: a header line does not reset the counter. With
  \<open>contextLines = 1\<close>, the context line \<open>c\<close> right after the header is dropped.
\<close>

theorem counter_reset_counterexample:
  "isHeaderLine (compressLine ''Index: x'') \<and> isContextLine ''c'' \<and>
   simplify \<lparr>enabled = True, contextLines = 1, maxLineLength = 120\<rparr>
     ''a\<newline>b\<newline>Index: x\<newline>c'' = ''a\<newline>...\<newline>Index: x''"
  by (simp add: simplify_def simplifyLoop_def simplifyStep_def compressLine_def trim_def is_ws_def
      isHeaderLine_def isChangeLine_def startsWith_def truncateLine_def isContextLine_def)

theorem counter_reset_by_change_only_witness:
  "isHeaderLine (compressLine ''+++ b/f'') \<and>
   simplifyLoop \<lparr>enabled = True, contextLines = 1, maxLineLength = 120\<rparr> ([], 5) [''+++ b/f'', ''p''] =
     ([''+++ b/f''], 5) \<and>
   \<not> isHeaderLine (compressLine ''+a'') \<and> isChangeLine (compressLine ''+a'') \<and> isContextLine ''p'' \<and>
   simplifyLoop \<lparr>enabled = True, contextLines = 1, maxLineLength = 120\<rparr> ([], 5) [''+a'', ''p''] =
     ([''+a'', ''p''], 1)"
proof -
  let ?c = "\<lparr>enabled = True, contextLines = 1, maxLineLength = 120\<rparr>"
  have c: "compressLine ''+a'' = ''+a''" "compressLine ''+++ b/f'' = ''+++ b/f''" "compressLine ''p'' = ''p''"
    by (simp_all add: compressLine_def trim_def is_ws_def)
  have h: "isHeaderLine (compressLine ''+++ b/f'')"
    and n: "\<not> isHeaderLine (compressLine ''+a'')" and g: "isChangeLine (compressLine ''+a'')"
    and x: "isContextLine ''p''"
    by (simp_all add: c isHeaderLine_def isChangeLine_def isContextLine_def startsWith_def)
  note t = counter_reset_by_change_only [of "''+++ b/f''" ?c "[]" 5 "[''p'']" "''+a''" "[''p'']" "[]"]
  from t h have "simplifyLoop ?c ([], 5) [''+++ b/f'', ''p''] = simplifyLoop ?c ([] @ [compressLine ''+++ b/f''], 5) [''p'']"
    by blast
  also have "\<dots> = ([''+++ b/f''], 5)"
    using x by (simp add: c simplifyLoop_Cons simplifyLoop_Nil step_context)
  finally have 1: "simplifyLoop ?c ([], 5) [''+++ b/f'', ''p''] = ([''+++ b/f''], 5)" .
  have "(\<forall>l \<in> set [''p'']. isContextLine l) \<and> int (length [''p'']) \<le> contextLines ?c"
    using x by simp
  with t n g have "simplifyLoop ?c ([], 5) [''+a'', ''p''] =
      ([] @ truncateLine (compressLine ''+a'') (maxLineLength ?c)
           # map (\<lambda>l. truncateLine (compressLine l) (maxLineLength ?c)) [''p''], length [''p''])"
    by blast
  then have 2: "simplifyLoop ?c ([], 5) [''+a'', ''p''] = ([''+a'', ''p''], 1)"
    by (simp add: c truncateLine_def)
  from 1 2 h n g x show ?thesis by blast
qed

end
